theory Spec2Isabelle
  imports Main "HOL-Library.Word"
begin

section \<open>Intel HEX loader of tek-firmware-updater\<close>

text \<open>
  A shallow embedding of \<^verbatim>\<open>read_record_from_line\<close>, \<^verbatim>\<open>validate_record\<close>
  and \<^verbatim>\<open>load_ihex_buffer\<close>. C's \<^verbatim>\<open>ui8\<close> and \<^verbatim>\<open>ui16\<close> are words, the
  \<^verbatim>\<open>int\<close> variables filled by \<^verbatim>\<open>sscanf\<close> are integers (\<open>isize\<close>, \<open>iaddr\<close>,
  \<open>itype\<close>, since \<open>size\<close> and the record fields are constants here), \<^verbatim>\<open>size_t\<close>
  counters are naturals (none of them can reach the wrap-around of \<^verbatim>\<open>size_t\<close>:
  an end address is at most 65535 + 255 and the line counter grows by one per line read).
  A returned \<^verbatim>\<open>char *\<close> error is a string, \<^verbatim>\<open>NULL\<close> is \<open>None\<close>.
\<close>

type_synonym ui8 = "8 word"
type_synonym ui16 = "16 word"

subsection \<open>The C library functions the loader calls\<close>

text \<open>\<^verbatim>\<open>isspace\<close> in the C locale: the characters a \<^verbatim>\<open>%x\<close> directive skips.\<close>

definition isspace :: "char \<Rightarrow> bool" where
  "isspace c = (c = CHR '' '' \<or> c = CHR 0x09 \<or> c = CHR 0x0A \<or> c = CHR 0x0B
                \<or> c = CHR 0x0C \<or> c = CHR 0x0D)"

definition hex_digits :: string where
  "hex_digits = ''0123456789abcdefABCDEF''"

definition isxdigit :: "char \<Rightarrow> bool" where
  "isxdigit c = (c \<in> set hex_digits)"

text \<open>The value of a hexadecimal digit; only used on characters passing \<open>isxdigit\<close>.\<close>

definition xdigit_val :: "char \<Rightarrow> int" where
  "xdigit_val c =
     (let n = (of_char c :: int) in
      if 48 \<le> n \<and> n \<le> 57 then n - 48
      else if 97 \<le> n \<and> n \<le> 102 then n - 87
      else n - 55)"

text \<open>
  The digits of a \<^verbatim>\<open>%x\<close> input item: at most \<open>w\<close> hexadecimal digits are
  consumed and accumulated in base 16; the scan stops at the first other character.
  The result is the number of digits read, the accumulated value and the unread input.
\<close>

fun scan_xdigits :: "nat \<Rightarrow> int \<Rightarrow> string \<Rightarrow> nat \<times> int \<times> string" where
  "scan_xdigits 0 acc cs = (0, acc, cs)"
| "scan_xdigits (Suc w) acc [] = (0, acc, [])"
| "scan_xdigits (Suc w) acc (c # cs) =
     (if isxdigit c
      then (case scan_xdigits w (16 * acc + xdigit_val c) cs of (k, v, r) \<Rightarrow> (Suc k, v, r))
      else (0, acc, c # cs))"

text \<open>
  One \<^verbatim>\<open>%<w>x\<close> conversion of \<^verbatim>\<open>sscanf\<close> (ISO C11 7.21.6.2), as the GNU C
  library runs it: white space is skipped without counting against the field width;
  then at most \<open>w\<close> characters are taken, an optional sign, an optional
  \<^verbatim>\<open>0x\<close>/\<^verbatim>\<open>0X\<close> and a run of hexadecimal digits. \<open>None\<close> is an input failure
  (nothing left after the white space) or a matching failure (no digit);
  \<open>Some (v, rest)\<close> is the value stored into the \<^verbatim>\<open>int\<close> and the unread input. A
  negative sign negates the value, as \<^verbatim>\<open>strtoul\<close> does. After \<^verbatim>\<open>0x\<close> the library
  has the digit \<^verbatim>\<open>0\<close> already: when no hexadecimal digit follows inside the field
  width it stores 0, with the \<^verbatim>\<open>x\<close> consumed (the standard asks for a matching
  failure there).
\<close>

definition after_sign :: "nat \<Rightarrow> string \<Rightarrow> (int \<times> string) option" where
  "after_sign w cs =
     (case cs of
        c # x # cs' \<Rightarrow>
          if c = CHR ''0'' \<and> (x = CHR ''x'' \<or> x = CHR ''X'') \<and> 2 \<le> w
          then (case scan_xdigits (w - 2) 0 cs' of (k, v, r) \<Rightarrow> Some (v, r))
          else (case scan_xdigits w 0 cs of
                  (k, v, r) \<Rightarrow> if k = 0 then None else Some (v, r))
      | _ \<Rightarrow> (case scan_xdigits w 0 cs of
                  (k, v, r) \<Rightarrow> if k = 0 then None else Some (v, r)))"

definition scan_hex :: "nat \<Rightarrow> string \<Rightarrow> (int \<times> string) option" where
  "scan_hex w s =
     (case dropWhile isspace s of
        [] \<Rightarrow> None
      | c # cs \<Rightarrow>
          if (c = CHR ''+'' \<or> c = CHR ''-'') \<and> 1 \<le> w
          then (case after_sign (w - 1) cs of
                  None \<Rightarrow> None
                | Some (v, r) \<Rightarrow> Some (if c = CHR ''-'' then - v else v, r))
          else after_sign w (c # cs))"

text \<open>
  \<^verbatim>\<open>sscanf( line+1, "%2x%4x%2x", &size, &addr, &type )\<close> with the test
  \<^verbatim>\<open>status != 3\<close>: the three conversions run one after the other on the unread
  input; \<open>None\<close> stands for every status other than 3.
\<close>

definition scan_header :: "string \<Rightarrow> (int \<times> int \<times> int) option" where
  "scan_header s =
     (case scan_hex 2 s of
        None \<Rightarrow> None
      | Some (isize, s1) \<Rightarrow>
          (case scan_hex 4 s1 of
             None \<Rightarrow> None
           | Some (iaddr, s2) \<Rightarrow>
               (case scan_hex 2 s2 of
                  None \<Rightarrow> None
                | Some (itype, s3) \<Rightarrow> Some (isize, iaddr, itype))))"

subsection \<open>Records and the reader\<close>

text \<open>
  \<^verbatim>\<open>ihex_record\<close>. The field \<open>data\<close> holds the entries of \<^verbatim>\<open>data[256]\<close>
  that the reader has assigned, \<^verbatim>\<open>data[0]\<close> first; the rest of the array is never
  read.
\<close>

record ihex_record =
  rsize :: ui8
  addr :: ui16
  rtype :: ui8
  data :: "ui8 list"
  checksum :: ui8

text \<open>The loop that drops the trailing carriage returns and new lines.\<close>

function strip_eol :: "string \<Rightarrow> string" where
  "strip_eol line =
     (if line \<noteq> [] \<and> (last line = CHR 0x0A \<or> last line = CHR 0x0D)
      then strip_eol (butlast line) else line)"
  by pat_completeness auto
termination
  by (relation "measure length") auto

declare strip_eol.simps [simp del]

text \<open>
  The \<^verbatim>\<open>for\<close> loop over the data bytes: \<open>i\<close> is the loop counter, \<open>ds\<close> the
  entries of \<^verbatim>\<open>record->data\<close> assigned so far and \<open>cs\<close> the running
  \<^verbatim>\<open>*check_sum\<close>.
\<close>

function read_data :: "string \<Rightarrow> nat \<Rightarrow> nat \<Rightarrow> ui8 list \<Rightarrow> ui8 \<Rightarrow> string + (ui8 list \<times> ui8)" where
  "read_data line n i ds cs =
     (if i < n
      then (case scan_hex 2 (drop (9 + 2 * i) line) of
              None \<Rightarrow> Inl ''Error parsing record data''
            | Some (datum, _) \<Rightarrow>
                read_data line n (i + 1) (ds @ [word_of_int datum]) (cs + word_of_int datum))
      else Inr (ds, cs))"
  by pat_completeness auto
termination
  by (relation "measure (\<lambda>(line, n, i, ds, cs). n - i)") auto

declare read_data.simps [simp del]

text \<open>
  \<^verbatim>\<open>read_record_from_line\<close> of \<^verbatim>\<open>tek-firmware-updater.c\<close>: \<open>Inl\<close> is the
  returned message, \<open>Inr (record, check_sum)\<close> stands for \<^verbatim>\<open>NULL\<close> with the
  two output parameters. The comparison \<^verbatim>\<open>length != 11+2*size\<close> converts the
  \<^verbatim>\<open>int\<close> on the right to \<^verbatim>\<open>size_t\<close> (64 bits), which matters when
  \<^verbatim>\<open>sscanf\<close> stored a negative size: the converted value is then above
  \<open>2 ^ 64 - 500\<close>, more than the length of any string in memory, so the code after
  the comparison runs with a size from 0 to 255 only. \<^verbatim>\<open>addr>>8\<close> on the
  \<^verbatim>\<open>int\<close> is the arithmetic shift.
\<close>

definition read_record_from_line :: "string \<Rightarrow> string + (ihex_record \<times> ui8)" where
  "read_record_from_line line0 =
     (let line = strip_eol line0; len = length line in
      if len < 11 then Inl ''Invalid line length''
      else if line ! 0 \<noteq> CHR '':'' then Inl ''Invalid start code''
      else (case scan_header (drop 1 line) of
              None \<Rightarrow> Inl ''Error parsing record header''
            | Some (isize, iaddr, itype) \<Rightarrow>
                if int len \<noteq> (11 + 2 * isize) mod 2 ^ 64 then Inl ''Invalid line length''
                else
                  (let check_sum = (word_of_int isize :: ui8) + word_of_int (iaddr div 256)
                                   + word_of_int iaddr + word_of_int itype
                   in case read_data line (nat isize) 0 [] check_sum of
                        Inl e \<Rightarrow> Inl e
                      | Inr (ds, check_sum') \<Rightarrow>
                          (case scan_hex 2 (drop (9 + 2 * nat isize) line) of
                             None \<Rightarrow> Inl ''Error parsing record chechsum''
                           | Some (cksum, _) \<Rightarrow>
                               Inr (\<lparr>rsize = word_of_int isize, addr = word_of_int iaddr,
                                     rtype = word_of_int itype, data = ds,
                                     checksum = word_of_int cksum\<rparr>, check_sum')))))"

text \<open>
  \<^verbatim>\<open>validate_record\<close>, the stand-alone validator of the earlier revision of the
  file; \<^verbatim>\<open>load_ihex_buffer\<close> of \<^verbatim>\<open>tek-firmware-updater.c\<close> makes the same test
  inline on the \<^verbatim>\<open>check_sum\<close> the reader returns.
\<close>

definition validate_record :: "ihex_record \<Rightarrow> bool" where
  "validate_record record =
     (let sum = rsize record;
          sum = sum + ucast (drop_bit 8 (addr record));
          sum = sum + ucast (addr record);
          sum = sum + rtype record;
          sum = fold (\<lambda>i s. s + data record ! i) [0 ..< unat (rsize record)] sum;
          sum = sum + checksum record
      in sum = 0)"

subsection \<open>Error messages\<close>

text \<open>The \<^verbatim>\<open>%zu\<close> conversion: a natural number in decimal.\<close>

fun decimal :: "nat \<Rightarrow> string" where
  "decimal n =
     (if n < 10 then [''0123456789'' ! n]
      else decimal (n div 10) @ [''0123456789'' ! (n mod 10)])"

declare decimal.simps [simp del]

text \<open>
  \<^verbatim>\<open>format_error\<close> writes the formatted message into a buffer of
  \<^verbatim>\<open>MAX_ERROR_STRING_SZ\<close> characters, so at most 255 of them are kept. All the
  formats of the loader but one are a fixed text followed by
  \<^verbatim>\<open>(line %zu)\<close>; \<open>format_error_line\<close> is \<^verbatim>\<open>format_error\<close> on such a
  format.
\<close>

definition MAX_ERROR_STRING_SZ :: nat where
  "MAX_ERROR_STRING_SZ = 256"

definition format_error :: "string \<Rightarrow> string" where
  "format_error formatted = take (MAX_ERROR_STRING_SZ - 1) formatted"

definition format_error_line :: "string \<Rightarrow> nat \<Rightarrow> string" where
  "format_error_line text line_number =
     format_error (text @ '' (line '' @ decimal line_number @ '')'')"

subsection \<open>The input file\<close>

text \<open>
  The \<^verbatim>\<open>FILE *\<close> the loader reads: the characters not yet read, whether the
  stream fails with a read error (instead of reaching end-of-file) once they are used
  up, and the text \<^verbatim>\<open>strerror( errno )\<close> gives then.
\<close>

record ihex_file =
  unread :: string
  read_error :: bool
  error_text :: string

datatype fgets_result = Line string | Eof | Ferror

text \<open>
  The characters \<^verbatim>\<open>fgets\<close> stores when it may store \<open>m\<close> of them: it stops
  after a new line, after \<open>m\<close> characters or when the stream has no more.
\<close>

fun fgets_chars :: "nat \<Rightarrow> string \<Rightarrow> string" where
  "fgets_chars 0 cs = []"
| "fgets_chars (Suc m) [] = []"
| "fgets_chars (Suc m) (c # cs) = (if c = CHR 0x0A then [c] else c # fgets_chars m cs)"

text \<open>
  \<^verbatim>\<open>fgets( line_buffer, n, ihex_file )\<close> (ISO C11 7.21.7.2) together with the
  \<^verbatim>\<open>feof\<close>/\<^verbatim>\<open>ferror\<close> tests that follow it: at most \<open>n - 1\<close> characters
  are read. When the stream is used up before a new line or the limit, a read error
  gives a null pointer, and so does end-of-file when no character has been read. The
  string the caller sees ends at the first null character read.
\<close>

definition fgets :: "nat \<Rightarrow> ihex_file \<Rightarrow> fgets_result \<times> ihex_file" where
  "fgets n f =
     (let cs = fgets_chars (n - 1) (unread f);
          f' = f\<lparr>unread := drop (length cs) (unread f)\<rparr>
      in if length cs < n - 1 \<and> (cs = [] \<or> last cs \<noteq> CHR 0x0A)
         then (if read_error f then (Ferror, f')
               else if cs = [] then (Eof, f')
               else (Line (takeWhile (\<lambda>c. c \<noteq> CHR 0x00) cs), f'))
         else (Line (takeWhile (\<lambda>c. c \<noteq> CHR 0x00) cs), f'))"

definition IHEX_LINE_MAX_SZ :: nat where
  "IHEX_LINE_MAX_SZ = 521"

subsection \<open>The loader\<close>

text \<open>
  The local variables of \<^verbatim>\<open>load_ihex_buffer\<close> that live across iterations, and
  the caller's buffer: \<open>buffer s i\<close> is \<^verbatim>\<open>buffer[i]\<close>.
\<close>

record load_state =
  line_number :: nat
  highest_addr :: nat
  last_record_read :: bool
  buffer :: "nat \<Rightarrow> ui8"

text \<open>
  The copy loop \<^verbatim>\<open>for ( i = 0; i < record.size; ++i ) buffer[record.addr+i] =
  record.data[i]\<close>, from counter \<open>i\<close> on.
\<close>

function copy_data :: "ihex_record \<Rightarrow> nat \<Rightarrow> (nat \<Rightarrow> ui8) \<Rightarrow> (nat \<Rightarrow> ui8)" where
  "copy_data record i buf =
     (if i < unat (rsize record)
      then copy_data record (i + 1) (buf(unat (addr record) + i := data record ! i))
      else buf)"
  by pat_completeness auto
termination
  by (relation "measure (\<lambda>(record, i, buf). unat (rsize record) - i)") auto

declare copy_data.simps [simp del]

text \<open>
  The \<^verbatim>\<open>switch ( record.type )\<close>: \<open>Inl\<close> is a \<^verbatim>\<open>return\<close> with an error
  message, \<open>Inr\<close> the state at the \<^verbatim>\<open>break\<close>. \<open>buffer_sz\<close> is
  \<^verbatim>\<open>*buffer_sz\<close>; the state already holds the incremented line number.
\<close>

definition dispatch_record :: "nat \<Rightarrow> load_state \<Rightarrow> ihex_record \<Rightarrow> string + load_state" where
  "dispatch_record buffer_sz s record =
     (if rtype record = 0 then
        (let end_addr = unat (addr record) + unat (rsize record) in
         if end_addr \<ge> buffer_sz
         then Inl (format_error_line ''Addr too high to upload'' (line_number s))
         else Inr (s\<lparr>highest_addr := (if end_addr > highest_addr s then end_addr
                                         else highest_addr s),
                      buffer := copy_data record 0 (buffer s)\<rparr>))
      else if rtype record = 1 then Inr (s\<lparr>last_record_read := True\<rparr>)
      else if rtype record \<in> {2, 3, 4, 5}
      then Inl (format_error_line ''Only support 8bit ihex format'' (line_number s))
      else Inl (format_error_line ''Invalid record type'' (line_number s)))"

text \<open>
  One iteration of the \<^verbatim>\<open>while ( true )\<close> loop. \<open>Inl (e, s)\<close> leaves the
  loop: \<open>e = None\<close> is the \<^verbatim>\<open>break\<close>, \<open>e = Some msg\<close> a \<^verbatim>\<open>return\<close> of
  \<open>msg\<close>; \<open>Inr\<close> goes on to the next iteration.
\<close>

definition load_step ::
  "nat \<Rightarrow> load_state \<Rightarrow> ihex_file \<Rightarrow> (string option \<times> load_state) + (load_state \<times> ihex_file)" where
  "load_step buffer_sz s0 f =
     (let s = s0\<lparr>line_number := line_number s0 + 1\<rparr> in
      case fgets IHEX_LINE_MAX_SZ f of
        (Eof, f') \<Rightarrow>
          if last_record_read s then Inl (None, s)
          else Inl (Some (format_error_line ''Unexpected end-of-file'' (line_number s)), s)
      | (Ferror, f') \<Rightarrow>
          Inl (Some (format_error (''Error reading ihex file (line '' @ decimal (line_number s)
                                   @ ''): '' @ error_text f)), s)
      | (Line line, f') \<Rightarrow>
          if last_record_read s
          then Inl (Some (format_error_line ''Data after last record'' (line_number s)), s)
          else
            (case read_record_from_line line of
               Inl error \<Rightarrow> Inl (Some error, s)
             | Inr (record, check_sum) \<Rightarrow>
                 if check_sum + checksum record \<noteq> 0
                 then Inl (Some (format_error_line ''Invalid record'' (line_number s)), s)
                 else (case dispatch_record buffer_sz s record of
                         Inl error \<Rightarrow> Inl (Some error, s)
                       | Inr s' \<Rightarrow> Inr (s', f'))))"

text \<open>An iteration that goes on has read at least one character of the file.\<close>

lemma fgets_chars_length: "length (fgets_chars m cs) \<le> length cs"
  by (induction m cs rule: fgets_chars.induct) auto

lemma fgets_Line_shorter:
  assumes "fgets n f = (Line l, f')" and "2 \<le> n"
  shows "length (unread f') < length (unread f)"
proof -
  let ?cs = "fgets_chars (n - 1) (unread f)"
  have f': "unread f' = drop (length ?cs) (unread f)"
    using assms(1) by (auto simp: fgets_def Let_def split: if_splits)
  have "?cs \<noteq> []"
    using assms by (auto simp: fgets_def Let_def split: if_splits)
  moreover have "length ?cs \<le> length (unread f)"
    by (rule fgets_chars_length)
  ultimately show ?thesis
    using f' by (cases ?cs) auto
qed

lemma load_step_shorter:
  assumes "load_step buffer_sz s f = Inr (s', f')"
  shows "length (unread f') < length (unread f)"
proof -
  obtain l where "fgets IHEX_LINE_MAX_SZ f = (Line l, f')"
    using assms
    by (auto simp: load_step_def Let_def
             split: prod.splits fgets_result.splits if_splits sum.splits)
  then show ?thesis
    by (rule fgets_Line_shorter) (simp add: IHEX_LINE_MAX_SZ_def)
qed

text \<open>The \<^verbatim>\<open>while ( true )\<close> loop: iterations until one leaves it.\<close>

function load_loop :: "nat \<Rightarrow> load_state \<Rightarrow> ihex_file \<Rightarrow> string option \<times> load_state" where
  "load_loop buffer_sz s f =
     (case load_step buffer_sz s f of
        Inl result \<Rightarrow> result
      | Inr (s', f') \<Rightarrow> load_loop buffer_sz s' f')"
  by pat_completeness auto
termination
  by (relation "measure (\<lambda>(buffer_sz, s, f). length (unread f))")
     (auto dest: load_step_shorter)

declare load_loop.simps [simp del]

text \<open>
  What \<^verbatim>\<open>load_ihex_buffer\<close> leaves behind: the returned pointer, the caller's
  buffer and the caller's \<^verbatim>\<open>*buffer_sz\<close>.
\<close>

record load_result =
  returned :: "string option"
  buffer_out :: "nat \<Rightarrow> ui8"
  buffer_sz_out :: nat

definition initial_state :: "(nat \<Rightarrow> ui8) \<Rightarrow> load_state" where
  "initial_state buf =
     \<lparr>line_number = 0, highest_addr = 0, last_record_read = False, buffer = buf\<rparr>"

text \<open>
  \<^verbatim>\<open>load_ihex_buffer\<close>. \<open>None\<close> is the abort of the failed
  \<^verbatim>\<open>assert( ... && *buffer_sz )\<close>; the pointers of the model are never null.
  \<^verbatim>\<open>*buffer_sz = highest_addr\<close> is reached through the \<^verbatim>\<open>break\<close> only.
\<close>

definition load_ihex_buffer :: "ihex_file \<Rightarrow> (nat \<Rightarrow> ui8) \<Rightarrow> nat \<Rightarrow> load_result option" where
  "load_ihex_buffer f buf buffer_sz =
     (if buffer_sz = 0 then None
      else (case load_loop buffer_sz (initial_state buf) f of
              (Some error, s) \<Rightarrow>
                Some \<lparr>returned = Some error, buffer_out = buffer s, buffer_sz_out = buffer_sz\<rparr>
            | (None, s) \<Rightarrow>
                Some \<lparr>returned = None, buffer_out = buffer s,
                      buffer_sz_out = highest_addr s\<rparr>))"

text \<open>
  The first \<open>k\<close> iterations of the loop: \<open>Inr (s, f)\<close> when none of them left it,
  with the state and the file before iteration \<open>k + 1\<close>.
\<close>

fun iterations :: "nat \<Rightarrow> nat \<Rightarrow> load_state \<Rightarrow> ihex_file
    \<Rightarrow> (string option \<times> load_state) + (load_state \<times> ihex_file)" where
  "iterations 0 buffer_sz s f = Inr (s, f)"
| "iterations (Suc k) buffer_sz s f =
     (case load_step buffer_sz s f of
        Inl result \<Rightarrow> Inl result
      | Inr (s', f') \<Rightarrow> iterations k buffer_sz s' f')"

text \<open>A file that ends at end-of-file, without a read error.\<close>

definition text_file :: "string \<Rightarrow> ihex_file" where
  "text_file cs = \<lparr>unread = cs, read_error = False, error_text = []\<rparr>"

text \<open>The buffer a caller has zeroed, as \<^verbatim>\<open>ui8 ihex_buffer[IHEX_BUFFER_MAX_SZ] = {0}\<close>.\<close>

definition zero_buffer :: "nat \<Rightarrow> ui8" where
  "zero_buffer i = 0"

subsection \<open>Notions the properties are stated with\<close>

text \<open>
  The sum the validator is specified with, over the naturals: size, high and low byte of
  the address, type, the data bytes \<^verbatim>\<open>data[0]\<close> to \<^verbatim>\<open>data[size-1]\<close> and
  the declared checksum.
\<close>

definition byte_sum :: "ihex_record \<Rightarrow> nat" where
  "byte_sum record =
     unat (rsize record) + unat (addr record) div 256 + unat (addr record) mod 256
     + unat (rtype record)
     + sum_list (map (\<lambda>i. unat (data record ! i)) [0 ..< unat (rsize record)])
     + unat (checksum record)"

text \<open>The records the first \<open>k\<close> iterations of the loop parse, in order.\<close>

fun records_read :: "nat \<Rightarrow> ihex_file \<Rightarrow> ihex_record list" where
  "records_read 0 f = []"
| "records_read (Suc k) f =
     (case fgets IHEX_LINE_MAX_SZ f of
        (Line line, f') \<Rightarrow>
          (case read_record_from_line line of
             Inl error \<Rightarrow> []
           | Inr (record, check_sum) \<Rightarrow> record # records_read k f')
      | _ \<Rightarrow> [])"

text \<open>
  The largest \<open>address + size\<close> of the data records of a list, 0 when it has none.
\<close>

fun highest_end :: "ihex_record list \<Rightarrow> nat" where
  "highest_end [] = 0"
| "highest_end (record # records) =
     max (if rtype record = 0 then unat (addr record) + unat (rsize record) else 0)
         (highest_end records)"

text \<open>
  The highest address written by a data record of a list, plus one; 0 when nothing has
  been written. A data record writes the addresses from \<open>address\<close> to
  \<open>address + size - 1\<close>, so one of size 0 writes nothing.
\<close>

fun highest_written :: "ihex_record list \<Rightarrow> nat" where
  "highest_written [] = 0"
| "highest_written (record # records) =
     max (if rtype record = 0 \<and> rsize record \<noteq> 0
          then unat (addr record) + unat (rsize record) else 0)
         (highest_written records)"

text \<open>
  The byte the records of a list leave at address \<open>j\<close>, when they are processed in
  order: the byte of the last data record whose addresses \<open>address\<close> to
  \<open>address + size - 1\<close> hold \<open>j\<close>, and \<open>None\<close> when no data record of the list
  writes there.
\<close>

fun last_write :: "ihex_record list \<Rightarrow> nat \<Rightarrow> ui8 option" where
  "last_write [] j = None"
| "last_write (record # records) j =
     (case last_write records j of
        Some b \<Rightarrow> Some b
      | None \<Rightarrow>
          if rtype record = 0 \<and> unat (addr record) \<le> j
             \<and> j < unat (addr record) + unat (rsize record)
          then Some (data record ! (j - unat (addr record))) else None)"

text \<open>
  The shape of a line the reader is specified to accept, after the trailing carriage
  returns and new lines are dropped: at least 11 characters, a colon first, hexadecimal
  digits only after it, and a length of 11 plus two characters per data byte of the size
  field. \<open>field pos w line\<close> is the value of the \<open>w\<close> hexadecimal digits at
  position \<open>pos\<close>, and \<open>decode_line\<close> the record such a line stands for.
\<close>

definition hex_value :: "string \<Rightarrow> int" where
  "hex_value ds = foldl (\<lambda>v c. 16 * v + xdigit_val c) 0 ds"

definition field :: "nat \<Rightarrow> nat \<Rightarrow> string \<Rightarrow> int" where
  "field pos w line = hex_value (take w (drop pos line))"

definition well_formed_line :: "string \<Rightarrow> bool" where
  "well_formed_line line \<longleftrightarrow>
     11 \<le> length line \<and> line ! 0 = CHR '':'' \<and> (\<forall>c \<in> set (drop 1 line). isxdigit c) \<and>
     int (length line) = 11 + 2 * field 1 2 line"

definition decode_line :: "string \<Rightarrow> ihex_record" where
  "decode_line line =
     \<lparr>rsize = word_of_int (field 1 2 line), addr = word_of_int (field 3 4 line),
      rtype = word_of_int (field 7 2 line),
      data = map (\<lambda>i. word_of_int (field (9 + 2 * i) 2 line)) [0 ..< nat (field 1 2 line)],
      checksum = word_of_int (field (9 + 2 * nat (field 1 2 line)) 2 line)\<rparr>"

section \<open>Properties\<close>

subsection \<open>The scanner and the reader\<close>

lemma xdigit_val_range: "isxdigit c \<Longrightarrow> 0 \<le> xdigit_val c \<and> xdigit_val c \<le> 15"
  by (auto simp: isxdigit_def hex_digits_def xdigit_val_def)

lemma acc_less_scaled:
  fixes acc :: int
  assumes "0 \<le> acc"
  shows "acc < (acc + 1) * 16 ^ w"
proof -
  have "(acc + 1) * 1 \<le> (acc + 1) * 16 ^ w"
    using assms by (intro mult_left_mono) auto
  then show ?thesis by simp
qed

lemma scan_xdigits_bound:
  "scan_xdigits w acc cs = (k, v, r) \<Longrightarrow> 0 \<le> acc \<Longrightarrow> 0 \<le> v \<and> v < (acc + 1) * 16 ^ w"
proof (induction w acc cs arbitrary: k v r rule: scan_xdigits.induct)
  case (1 acc cs)
  then show ?case by simp
next
  case (2 w acc)
  then show ?case using acc_less_scaled [of acc "Suc w"] by auto
next
  case (3 w acc c cs)
  show ?case
  proof (cases "isxdigit c")
    case True
    obtain k' v' r' where sc: "scan_xdigits w (16 * acc + xdigit_val c) cs = (k', v', r')"
      by (cases "scan_xdigits w (16 * acc + xdigit_val c) cs") auto
    have rng: "0 \<le> xdigit_val c \<and> xdigit_val c \<le> 15" using True by (rule xdigit_val_range)
    have "0 \<le> v' \<and> v' < (16 * acc + xdigit_val c + 1) * 16 ^ w"
      using "3.IH" [OF True sc] "3.prems" rng by simp
    moreover have "(16 * acc + xdigit_val c + 1) * 16 ^ w \<le> (16 * acc + 16) * 16 ^ w"
      using rng by (intro mult_right_mono) auto
    moreover have "(16 * acc + 16) * 16 ^ w = (acc + 1) * 16 ^ Suc w"
      by (simp add: algebra_simps)
    moreover have "v = v'" using "3.prems" True sc by simp
    ultimately show ?thesis by linarith
  next
    case False
    then have "v = acc" using "3.prems" by simp
    then show ?thesis using "3.prems" acc_less_scaled [of acc "Suc w"] by simp
  qed
qed

lemma after_sign_bound:
  assumes "after_sign w cs = Some (v, r)"
  shows "0 \<le> v \<and> v < 16 ^ w"
proof -
  have d: "scan_xdigits w 0 cs = (k, v, r) \<Longrightarrow> 0 \<le> v \<and> v < 16 ^ w" for k
    using scan_xdigits_bound [of w 0 cs k v r] by simp
  have p: "2 \<le> w \<Longrightarrow> scan_xdigits (w - 2) 0 cs' = (k, v, r) \<Longrightarrow> 0 \<le> v \<and> v < 16 ^ w" for k cs'
  proof -
    assume w: "2 \<le> w" and sc: "scan_xdigits (w - 2) 0 cs' = (k, v, r)"
    have "0 \<le> v \<and> v < 16 ^ (w - 2)"
      using scan_xdigits_bound [OF sc] by simp
    moreover have "(16::int) ^ (w - 2) \<le> 16 ^ w"
      by (rule power_increasing) auto
    ultimately show ?thesis by linarith
  qed
  show ?thesis
    using assms d p
    by (auto simp: after_sign_def split: list.splits if_splits prod.splits)
qed

lemma scan_hex_bound:
  assumes "scan_hex w s = Some (v, r)"
  shows "- (16 ^ w) < v \<and> v < 16 ^ w"
proof -
  have a: "after_sign w cs = Some (v', r') \<Longrightarrow> 0 \<le> v' \<and> v' < 16 ^ w" for cs v' r'
    by (rule after_sign_bound)
  have b: "1 \<le> w \<Longrightarrow> after_sign (w - 1) cs = Some (v', r') \<Longrightarrow> 0 \<le> v' \<and> v' < 16 ^ w" for cs v' r'
  proof -
    assume w: "1 \<le> w" and sc: "after_sign (w - 1) cs = Some (v', r')"
    have "0 \<le> v' \<and> v' < 16 ^ (w - 1)"
      using after_sign_bound [OF sc] by simp
    moreover have "(16::int) ^ (w - 1) \<le> 16 ^ w"
      by (rule power_increasing) auto
    ultimately show ?thesis by linarith
  qed
  obtain c cs where dw: "dropWhile isspace s = c # cs"
    using assms by (cases "dropWhile isspace s") (auto simp: scan_hex_def)
  show ?thesis
  proof (cases "(c = CHR ''+'' \<or> c = CHR ''-'') \<and> 1 \<le> w")
    case True
    then obtain v' where sc: "after_sign (w - 1) cs = Some (v', r)" and v: "v = v' \<or> v = - v'"
      using assms dw by (auto simp: scan_hex_def split: option.splits if_splits)
    from b [OF _ sc] True have "0 \<le> v' \<and> v' < 16 ^ w" by simp
    then show ?thesis using v by auto
  next
    case False
    then have "after_sign w (c # cs) = Some (v, r)"
      using assms dw by (auto simp: scan_hex_def)
    from a [OF this] show ?thesis by auto
  qed
qed

lemma read_data_result:
  "read_data line n i ds cs = Inr (ds', cs') \<Longrightarrow>
     \<exists>es. ds' = ds @ es \<and> length es = n - i \<and> cs' = fold (\<lambda>d s. s + d) es cs"
proof (induction line n i ds cs rule: read_data.induct)
  case (1 line n i ds cs)
  show ?case
  proof (cases "i < n")
    case False
    then show ?thesis using "1.prems" by (simp add: read_data.simps)
  next
    case True
    then obtain datum rest where sc: "scan_hex 2 (drop (9 + 2 * i) line) = Some (datum, rest)"
      using "1.prems" by (auto simp: read_data.simps [of line n i] split: option.splits)
    then have "read_data line n (i + 1) (ds @ [word_of_int datum]) (cs + word_of_int datum) = Inr (ds', cs')"
      using "1.prems" True by (simp add: read_data.simps [of line n i])
    from "1.IH" [OF True sc refl this]
    obtain es where "ds' = (ds @ [word_of_int datum]) @ es" "length es = n - (i + 1)"
        "cs' = fold (\<lambda>d s. s + d) es (cs + word_of_int datum)"
      by auto
    then show ?thesis using True
      by (intro exI [of _ "word_of_int datum # es"]) auto
  qed
qed

lemma ucast_16_8: "(ucast (word_of_int x :: 16 word) :: 8 word) = word_of_int x"
  by (rule bit_word_eqI) (auto simp: bit_simps)

lemma ucast_drop_16_8: "(ucast (drop_bit 8 (word_of_int x :: 16 word)) :: 8 word) = word_of_int (x div 256)"
proof -
  have d: "x div 256 = drop_bit 8 x"
    by (simp add: drop_bit_eq_div)
  show ?thesis
    unfolding d by (rule bit_word_eqI) (auto simp: bit_simps)
qed

lemma unat_ucast_low: "unat (ucast (a :: 16 word) :: 8 word) = unat a mod 256"
  by (simp add: unsigned_ucast_eq take_bit_eq_mod)

lemma unat_plus_u8: "unat (a + b :: ui8) = (unat a + unat b) mod 256"
  by (simp add: unat_word_ariths)

lemma unat_fold_sum:
  "unat (fold (\<lambda>i s. s + g i) is (s0 :: ui8)) = (unat s0 + sum_list (map (\<lambda>i. unat (g i)) is)) mod 256"
proof (induction "is" arbitrary: s0)
  case Nil
  have "unat s0 < 2 ^ 8" using unsigned_less [of s0] by simp
  then show ?case by simp
next
  case (Cons i "is")
  show ?case
    by (simp add: Cons.IH unat_plus_u8 mod_simps add.assoc)
qed

lemma strip_eol_length: "length (strip_eol line) \<le> length line"
proof (induction line rule: strip_eol.induct)
  case (1 line)
  show ?case
  proof (cases "line \<noteq> [] \<and> (last line = CHR 0x0A \<or> last line = CHR 0x0D)")
    case True
    then show ?thesis using "1.IH" by (subst strip_eol.simps) simp
  next
    case False
    then show ?thesis by (subst strip_eol.simps) auto
  qed
qed

lemma size_t_compare:
  fixes isize :: int
  assumes "int len = (11 + 2 * isize) mod 2 ^ 64" and "11 \<le> len" and "len < 2 ^ 63"
    and "- 256 < isize" and "isize < 256"
  shows "0 \<le> isize \<and> len = 11 + 2 * nat isize"
proof (cases "0 \<le> 11 + 2 * isize")
  case True
  then have "(11 + 2 * isize) mod 2 ^ 64 = 11 + 2 * isize"
    using assms(5) by (intro mod_pos_pos_trivial) auto
  then show ?thesis using assms by auto
next
  case False
  define M :: int where "M = 2 ^ 64"
  have M: "512 < M" "M = 2 ^ 64" by (simp_all add: M_def)
  have "(11 + 2 * isize) mod M = (11 + 2 * isize + M) mod M"
    by simp
  also have "\<dots> = 11 + 2 * isize + M"
    using assms(4) False M(1) by (intro mod_pos_pos_trivial) auto
  finally have "int len = 11 + 2 * isize + M"
    using assms(1) M(2) by simp
  moreover have "int len < 2 ^ 63"
    using assms(3) by (metis of_nat_less_iff of_nat_numeral of_nat_power)
  ultimately have False using assms(4) M(2) by simp
  then show ?thesis ..
qed

lemma fold_nth_upt:
  "fold (\<lambda>i s. f s (xs ! i)) [0 ..< length xs] s0 = fold (\<lambda>d s. f s d) xs s0"
proof -
  have "fold (\<lambda>d s. f s d) (map (nth xs) [0 ..< length xs]) s0
        = fold (\<lambda>i s. f s (xs ! i)) [0 ..< length xs] s0"
    by (simp add: fold_map comp_def)
  then show ?thesis by (simp add: map_nth)
qed

lemma read_record_from_line_Inr:
  assumes "read_record_from_line line = Inr (r, cs)" and "length line < 2 ^ 63"
  shows "length (data r) = unat (rsize r)"
    and "cs = fold (\<lambda>d s. s + d) (data r)
               (rsize r + ucast (drop_bit 8 (addr r)) + ucast (addr r) + rtype r)"
    and "length (strip_eol line) = 11 + 2 * unat (rsize r)"
proof -
  let ?l = "strip_eol line"
  from assms(1) obtain isize iaddr itype where
    len: "11 \<le> length ?l" and
    hdr: "scan_header (drop 1 ?l) = Some (isize, iaddr, itype)" and
    cmp: "int (length ?l) = (11 + 2 * isize) mod 2 ^ 64"
    by (auto simp: read_record_from_line_def Let_def split: if_splits option.splits)
  from hdr obtain r1 where "scan_hex 2 (drop 1 ?l) = Some (isize, r1)"
    by (auto simp: scan_header_def split: option.splits)
  from scan_hex_bound [OF this] have b: "- 256 < isize" "isize < 256" by auto
  have "length ?l < 2 ^ 63"
    using strip_eol_length [of line] assms(2) by linarith
  from size_t_compare [OF cmp len this b]
  have pos: "0 \<le> isize" and leq: "length ?l = 11 + 2 * nat isize" by auto
  let ?c0 = "(word_of_int isize :: ui8) + word_of_int (iaddr div 256) + word_of_int iaddr
             + word_of_int itype"
  from assms(1) hdr cmp len obtain ds cksum rest where
    rd: "read_data ?l (nat isize) 0 [] ?c0 = Inr (ds, cs)" and
    r: "r = \<lparr>rsize = word_of_int isize, addr = word_of_int iaddr, rtype = word_of_int itype,
              data = ds, checksum = word_of_int cksum\<rparr>"
    by (auto simp: read_record_from_line_def Let_def
             split: if_splits option.splits sum.splits prod.splits)
  from read_data_result [OF rd]
  have ds: "length ds = nat isize" and cs: "cs = fold (\<lambda>d s. s + d) ds ?c0"
    by auto
  have u: "unat (word_of_int isize :: ui8) = nat isize"
    using pos b by (simp add: unat_eq_nat_uint uint_word_of_int)
  show "length (data r) = unat (rsize r)"
    using r ds u by simp
  show "cs = fold (\<lambda>d s. s + d) (data r)
               (rsize r + ucast (drop_bit 8 (addr r)) + ucast (addr r) + rtype r)"
    using r cs by (simp add: ucast_16_8 ucast_drop_16_8)
  show "length (strip_eol line) = 11 + 2 * unat (rsize r)"
    using r leq u by simp
qed

lemma validate_record_inline:
  assumes "length (data r) = unat (rsize r)"
  shows "validate_record r \<longleftrightarrow>
         fold (\<lambda>d s. s + d) (data r)
           (rsize r + ucast (drop_bit 8 (addr r)) + ucast (addr r) + rtype r) + checksum r = 0"
  using fold_nth_upt [of "(+)" "data r"] assms
  by (simp add: validate_record_def Let_def)

lemma unat_drop_high: "unat (drop_bit 8 (a :: 16 word)) mod 256 = unat a div 256"
proof -
  have "unat a < 2 ^ 16"
    using unsigned_less [of a] by simp
  then have "unat a div 256 < 256" by simp
  then show ?thesis
    by (simp add: drop_bit_eq_div unat_div)
qed

lemma validate_record_byte_sum: "validate_record record \<longleftrightarrow> byte_sum record mod 256 = 0"
proof -
  define h where
    "h = rsize record + ucast (drop_bit 8 (addr record)) + ucast (addr record) + rtype record"
  define ds where
    "ds = sum_list (map (\<lambda>i. unat (data record ! i)) [0 ..< unat (rsize record)])"
  let ?total = "fold (\<lambda>i s. s + data record ! i) [0 ..< unat (rsize record)] h + checksum record"
  have h: "unat h = (unat (rsize record) + unat (addr record) div 256
                     + unat (addr record) mod 256 + unat (rtype record)) mod 256"
    unfolding h_def unat_plus_u8 mod_add_left_eq unat_ucast_low unat_drop_high ..
  have "unat ?total = (unat h + ds + unat (checksum record)) mod 256"
    unfolding unat_plus_u8 unat_fold_sum mod_add_left_eq ds_def ..
  also have "\<dots> = byte_sum record mod 256"
    unfolding h byte_sum_def ds_def by (simp only: add.assoc mod_add_left_eq)
  finally have "unat ?total = byte_sum record mod 256" .
  moreover have "validate_record record \<longleftrightarrow> unat ?total = 0"
    by (simp add: validate_record_def Let_def unat_eq_0 h_def)
  ultimately show ?thesis by simp
qed

subsection \<open>One iteration of the loop on a line that parses\<close>

lemma fgets_chars_bound: "length (fgets_chars m cs) \<le> m"
  by (induction m cs rule: fgets_chars.induct) auto

lemma fgets_Line_length:
  assumes "fgets n f = (Line l, f')"
  shows "length l \<le> n - 1"
proof -
  have "l = takeWhile (\<lambda>c. c \<noteq> CHR 0x00) (fgets_chars (n - 1) (unread f))"
    using assms by (auto simp: fgets_def Let_def split: if_splits)
  then have "length l \<le> length (fgets_chars (n - 1) (unread f))"
    by (simp add: length_takeWhile_le)
  then show ?thesis
    using fgets_chars_bound [of "n - 1" "unread f"] by linarith
qed

lemma load_step_Line:
  assumes "fgets IHEX_LINE_MAX_SZ f = (Line l, f')" and "\<not> last_record_read s"
    and "read_record_from_line l = Inr (record, cs)"
  shows "load_step buffer_sz s f =
           (if validate_record record
            then (case dispatch_record buffer_sz (s\<lparr>line_number := line_number s + 1\<rparr>) record of
                    Inl error \<Rightarrow> Inl (Some error, s\<lparr>line_number := line_number s + 1\<rparr>)
                  | Inr s' \<Rightarrow> Inr (s', f'))
            else Inl (Some (format_error_line ''Invalid record'' (line_number s + 1)),
                      s\<lparr>line_number := line_number s + 1\<rparr>))"
proof -
  have "length l \<le> 520"
    using fgets_Line_length [OF assms(1)] by (simp add: IHEX_LINE_MAX_SZ_def)
  then have "length l < 2 ^ 63" by simp
  note rr = read_record_from_line_Inr [OF assms(3) this]
  from rr(1,2) validate_record_inline [of "record"]
  have "validate_record record \<longleftrightarrow> cs + checksum record = 0" by simp
  then show ?thesis
    using assms by (auto simp: load_step_def Let_def split: sum.splits)
qed

subsection \<open>The dispatch of a data record\<close>

lemma copy_data_apply:
  "copy_data record i buf j =
     (if unat (addr record) + i \<le> j \<and> j < unat (addr record) + unat (rsize record)
      then data record ! (j - unat (addr record)) else buf j)"
proof (induction "record" i buf rule: copy_data.induct)
  case (1 r i buf)
  show ?case
  proof (cases "i < unat (rsize r)")
    case True
    have "copy_data r i buf j = copy_data r (i + 1) (buf(unat (addr r) + i := data r ! i)) j"
      using True by (subst copy_data.simps) simp
    also have "\<dots> = (if unat (addr r) + (i + 1) \<le> j \<and> j < unat (addr r) + unat (rsize r)
                      then data r ! (j - unat (addr r))
                      else (buf(unat (addr r) + i := data r ! i)) j)"
      by (rule "1.IH" [OF True])
    finally show ?thesis using True by auto
  next
    case False
    then show ?thesis by (subst copy_data.simps) auto
  qed
qed

lemma dispatch_record_data:
  assumes "rtype record = 0"
  shows "dispatch_record buffer_sz s record =
           (if buffer_sz \<le> unat (addr record) + unat (rsize record)
            then Inl (format_error_line ''Addr too high to upload'' (line_number s))
            else Inr (s\<lparr>highest_addr := max (highest_addr s)
                                           (unat (addr record) + unat (rsize record)),
                        buffer := copy_data record 0 (buffer s)\<rparr>))"
  using assms by (simp add: dispatch_record_def Let_def max_def)

subsection \<open>Iterations of the loop\<close>

lemma dispatch_record_Inr:
  assumes "dispatch_record buffer_sz s record = Inr s'"
  shows "(rtype record = 0 \<and> unat (addr record) + unat (rsize record) < buffer_sz \<and>
          s' = s\<lparr>highest_addr := max (highest_addr s) (unat (addr record) + unat (rsize record)),
                  buffer := copy_data record 0 (buffer s)\<rparr>) \<or>
         (rtype record = 1 \<and> s' = s\<lparr>last_record_read := True\<rparr>)"
proof (cases "rtype record = 0")
  case True
  then show ?thesis
    using assms dispatch_record_data [OF True, of buffer_sz s] by (auto split: if_splits)
next
  case False
  then show ?thesis
    using assms by (auto simp: dispatch_record_def split: if_splits)
qed

lemma load_step_Inr:
  assumes "load_step buffer_sz s f = Inr (s', f')"
  obtains l "record" cs where "fgets IHEX_LINE_MAX_SZ f = (Line l, f')"
    and "\<not> last_record_read s" and "read_record_from_line l = Inr (record, cs)"
    and "validate_record record"
    and "dispatch_record buffer_sz (s\<lparr>line_number := line_number s + 1\<rparr>) record = Inr s'"
proof -
  from assms obtain l "record" cs where
    a: "fgets IHEX_LINE_MAX_SZ f = (Line l, f')" "\<not> last_record_read s"
       "read_record_from_line l = Inr (record, cs)"
    by (auto simp: load_step_def Let_def
             split: prod.splits fgets_result.splits if_splits sum.splits)
  from load_step_Line [OF a, of buffer_sz] assms
  have "validate_record record"
    and "dispatch_record buffer_sz (s\<lparr>line_number := line_number s + 1\<rparr>) record = Inr s'"
    by (auto split: if_splits sum.splits)
  with a show ?thesis by (rule that)
qed

lemma load_step_Inl_state:
  assumes "load_step buffer_sz s f = Inl (e, s')"
  shows "s' = s\<lparr>line_number := line_number s + 1\<rparr>"
  using assms
  by (auto simp: load_step_def Let_def
           split: prod.splits fgets_result.splits if_splits sum.splits)

lemma load_step_effect:
  assumes "load_step buffer_sz s f = Inr (s', f')"
  obtains r where "\<And>j. records_read (Suc j) f = r # records_read j f'"
    and "highest_addr s' = max (highest_addr s) (highest_end [r])"
    and "line_number s' = line_number s + 1"
    and "rtype r = 0 \<Longrightarrow> buffer s' = copy_data r 0 (buffer s)"
    and "last_record_read s' \<longleftrightarrow> rtype r = 1"
    and "rtype r \<noteq> 0 \<Longrightarrow> buffer s' = buffer s"
proof -
  from assms obtain l r cs where
    a: "fgets IHEX_LINE_MAX_SZ f = (Line l, f')" "read_record_from_line l = Inr (r, cs)"
       "dispatch_record buffer_sz (s\<lparr>line_number := line_number s + 1\<rparr>) r = Inr s'"
    and n: "\<not> last_record_read s"
    by (rule load_step_Inr)
  have "records_read (Suc j) f = r # records_read j f'" for j
    using a(1,2) by simp
  moreover have "highest_addr s' = max (highest_addr s) (highest_end [r])"
    and "line_number s' = line_number s + 1"
    and "rtype r = 0 \<Longrightarrow> buffer s' = copy_data r 0 (buffer s)"
    and "last_record_read s' \<longleftrightarrow> rtype r = 1"
    and "rtype r \<noteq> 0 \<Longrightarrow> buffer s' = buffer s"
    using dispatch_record_Inr [OF a(3)] n by auto
  ultimately show ?thesis by (rule that)
qed

lemma iterations_highest:
  "iterations k buffer_sz s f = Inr (s', f') \<Longrightarrow>
     highest_addr s' = max (highest_addr s) (highest_end (records_read k f))"
proof (induction k arbitrary: s f)
  case 0
  then show ?case by simp
next
  case (Suc k)
  from Suc.prems obtain s1 f1 where
    st: "load_step buffer_sz s f = Inr (s1, f1)" and it: "iterations k buffer_sz s1 f1 = Inr (s', f')"
    by (auto split: sum.splits)
  from st obtain r where
    r: "\<And>j. records_read (Suc j) f = r # records_read j f1"
       "highest_addr s1 = max (highest_addr s) (highest_end [r])"
    by (rule load_step_effect) blast
  from Suc.IH [OF it] r show ?case by simp
qed

lemma iterations_line_number:
  "iterations k buffer_sz s f = Inr (s', f') \<Longrightarrow> line_number s' = line_number s + k"
proof (induction k arbitrary: s f)
  case 0
  then show ?case by simp
next
  case (Suc k)
  from Suc.prems obtain s1 f1 where
    st: "load_step buffer_sz s f = Inr (s1, f1)" and it: "iterations k buffer_sz s1 f1 = Inr (s', f')"
    by (auto split: sum.splits)
  from st have "line_number s1 = line_number s + 1"
    by (rule load_step_effect)
  with Suc.IH [OF it] show ?case by simp
qed

lemma highest_written_le: "highest_written rs \<le> highest_end rs"
  by (induction rs) auto

lemma highest_written_eq:
  "\<forall>r \<in> set rs. rtype r = 0 \<longrightarrow> rsize r \<noteq> 0 \<Longrightarrow> highest_written rs = highest_end rs"
  by (induction rs) auto

lemma load_loop_iterations:
  "iterations k buffer_sz s f = Inr (s', f') \<Longrightarrow> load_loop buffer_sz s f = load_loop buffer_sz s' f'"
proof (induction k arbitrary: s f)
  case 0
  then show ?case by simp
next
  case (Suc k)
  from Suc.prems obtain s1 f1 where
    st: "load_step buffer_sz s f = Inr (s1, f1)" and it: "iterations k buffer_sz s1 f1 = Inr (s', f')"
    by (auto split: sum.splits)
  have "load_loop buffer_sz s f = load_loop buffer_sz s1 f1"
    using st by (subst load_loop.simps) simp
  then show ?case using Suc.IH [OF it] by simp
qed

lemma load_loop_highest: "load_loop buffer_sz s f = (e, s') \<Longrightarrow> highest_addr s \<le> highest_addr s'"
proof (induction buffer_sz s f rule: load_loop.induct)
  case (1 buffer_sz s f)
  show ?case
  proof (cases "load_step buffer_sz s f")
    case (Inl res)
    then have "load_step buffer_sz s f = Inl (e, s')"
      using "1.prems" by (subst (asm) load_loop.simps) simp
    from load_step_Inl_state [OF this] show ?thesis by simp
  next
    case (Inr p)
    obtain s1 f1 where p: "p = (s1, f1)" by (cases p)
    have "load_loop buffer_sz s1 f1 = (e, s')"
      using "1.prems" Inr p by (subst (asm) load_loop.simps) simp
    from "1.IH" [OF Inr p [symmetric] this] have "highest_addr s1 \<le> highest_addr s'" .
    moreover have "load_step buffer_sz s f = Inr (s1, f1)"
      using Inr p by simp
    then have "highest_addr s \<le> highest_addr s1"
      by (rule load_step_effect) simp
    ultimately show ?thesis by simp
  qed
qed

lemma iterations_snoc:
  "iterations (Suc k) buffer_sz s f = Inr (s', f') \<Longrightarrow>
     \<exists>s1 f1. iterations k buffer_sz s f = Inr (s1, f1) \<and> load_step buffer_sz s1 f1 = Inr (s', f')"
proof (induction k arbitrary: s f)
  case 0
  then show ?case by (auto split: sum.splits)
next
  case (Suc k)
  from Suc.prems obtain s1 f1 where
    st: "load_step buffer_sz s f = Inr (s1, f1)"
    and it: "iterations (Suc k) buffer_sz s1 f1 = Inr (s', f')"
    by (auto split: sum.splits)
  from Suc.IH [OF it] st show ?case by simp
qed

lemma records_read_append:
  "iterations k buffer_sz s f = Inr (s1, f1) \<Longrightarrow>
     records_read (k + j) f = records_read k f @ records_read j f1"
proof (induction k arbitrary: s f)
  case 0
  then show ?case by simp
next
  case (Suc k)
  from Suc.prems obtain s2 f2 where
    st: "load_step buffer_sz s f = Inr (s2, f2)"
    and it: "iterations k buffer_sz s2 f2 = Inr (s1, f1)"
    by (auto split: sum.splits)
  from st obtain r where r: "\<And>j. records_read (Suc j) f = r # records_read j f2"
    by (rule load_step_effect) blast
  from Suc.IH [OF it] r [of "k + j"] r [of k] show ?case by simp
qed

lemma iterations_last_record:
  assumes "iterations (Suc k) buffer_sz s f = Inr (s', f')"
    and "rtype (last (records_read (Suc k) f)) = 0"
    and "i < unat (rsize (last (records_read (Suc k) f)))"
  shows "buffer s' (unat (addr (last (records_read (Suc k) f))) + i)
         = data (last (records_read (Suc k) f)) ! i"
proof -
  from iterations_snoc [OF assms(1)] obtain s1 f1 where
    it: "iterations k buffer_sz s f = Inr (s1, f1)" and st: "load_step buffer_sz s1 f1 = Inr (s', f')"
    by auto
  from st obtain r where
    r: "\<And>j. records_read (Suc j) f1 = r # records_read j f'"
       "rtype r = 0 \<Longrightarrow> buffer s' = copy_data r 0 (buffer s1)"
    by (rule load_step_effect) blast
  have "records_read (Suc k) f = records_read k f @ [r]"
    using records_read_append [OF it, of 1] r(1) [of 0] by simp
  then have l: "last (records_read (Suc k) f) = r" by simp
  show ?thesis
    using assms(2,3) r(2) unfolding l by (simp add: copy_data_apply)
qed

lemma iterations_terminated:
  "iterations k buffer_sz s f = Inr (s', f') \<Longrightarrow>
     last_record_read s' \<longleftrightarrow> last_record_read s \<or> (\<exists>r \<in> set (records_read k f). rtype r = 1)"
proof (induction k arbitrary: s f)
  case 0
  then show ?case by simp
next
  case (Suc k)
  from Suc.prems obtain s1 f1 where
    st: "load_step buffer_sz s f = Inr (s1, f1)" and it: "iterations k buffer_sz s1 f1 = Inr (s', f')"
    by (auto split: sum.splits)
  from st have n: "\<not> last_record_read s"
    by (rule load_step_Inr)
  from st obtain r where
    r: "\<And>j. records_read (Suc j) f = r # records_read j f1"
       "last_record_read s1 \<longleftrightarrow> rtype r = 1"
    by (rule load_step_effect) blast
  from Suc.IH [OF it] r(2) n show ?case
    unfolding r(1) [of k] by auto
qed

lemma load_step_Eof:
  assumes "fst (fgets IHEX_LINE_MAX_SZ f) = Eof"
  shows "load_step buffer_sz s f =
           Inl (if last_record_read s then None
                else Some (format_error_line ''Unexpected end-of-file'' (line_number s + 1)),
                s\<lparr>line_number := line_number s + 1\<rparr>)"
  using assms by (cases "fgets IHEX_LINE_MAX_SZ f") (simp add: load_step_def Let_def)

lemma load_loop_Inl: "load_step buffer_sz s f = Inl res \<Longrightarrow> load_loop buffer_sz s f = res"
  by (subst load_loop.simps) simp



lemma load_loop_decompose:
  "load_loop buffer_sz s f = (e, s') \<Longrightarrow>
     \<exists>k s1 f1. iterations k buffer_sz s f = Inr (s1, f1) \<and> load_step buffer_sz s1 f1 = Inl (e, s')"
proof (induction buffer_sz s f rule: load_loop.induct)
  case (1 buffer_sz s f)
  show ?case
  proof (cases "load_step buffer_sz s f")
    case (Inl res)
    then have "load_step buffer_sz s f = Inl (e, s')"
      using "1.prems" by (subst (asm) load_loop.simps) simp
    then have "iterations 0 buffer_sz s f = Inr (s, f) \<and> load_step buffer_sz s f = Inl (e, s')"
      by simp
    then show ?thesis by blast
  next
    case (Inr p)
    obtain s2 f2 where p: "p = (s2, f2)" by (cases p)
    have "load_loop buffer_sz s2 f2 = (e, s')"
      using "1.prems" Inr p by (subst (asm) load_loop.simps) simp
    from "1.IH" [OF Inr p [symmetric] this] obtain k s1 f1 where
      "iterations k buffer_sz s2 f2 = Inr (s1, f1)" "load_step buffer_sz s1 f1 = Inl (e, s')"
      by blast
    then have "iterations (Suc k) buffer_sz s f = Inr (s1, f1) \<and> load_step buffer_sz s1 f1 = Inl (e, s')"
      using Inr p by simp
    then show ?thesis by blast
  qed
qed

lemma load_step_Inl_None:
  assumes "load_step buffer_sz s f = Inl (None, s')"
  shows "fst (fgets IHEX_LINE_MAX_SZ f) = Eof \<and> last_record_read s"
  using assms
  by (auto simp: load_step_def Let_def
           split: prod.splits fgets_result.splits if_splits sum.splits)

subsection \<open>The buffer after a number of iterations\<close>

lemma iterations_buffer:
  "iterations k buffer_sz s f = Inr (s', f') \<Longrightarrow>
     buffer s' j = (case last_write (records_read k f) j of Some b \<Rightarrow> b | None \<Rightarrow> buffer s j)"
proof (induction k arbitrary: s f)
  case 0
  then show ?case by simp
next
  case (Suc k)
  from Suc.prems obtain s1 f1 where
    st: "load_step buffer_sz s f = Inr (s1, f1)" and it: "iterations k buffer_sz s1 f1 = Inr (s', f')"
    by (auto split: sum.splits)
  from st obtain r where
    r: "\<And>j. records_read (Suc j) f = r # records_read j f1"
       "rtype r = 0 \<Longrightarrow> buffer s1 = copy_data r 0 (buffer s)"
       "rtype r \<noteq> 0 \<Longrightarrow> buffer s1 = buffer s"
    by (rule load_step_effect) blast
  have b1: "buffer s1 j =
          (if rtype r = 0 \<and> unat (addr r) \<le> j \<and> j < unat (addr r) + unat (rsize r)
           then data r ! (j - unat (addr r)) else buffer s j)"
    using r(2,3) by (cases "rtype r = 0") (simp_all add: copy_data_apply)
  show ?case
    unfolding r(1) [of k] using Suc.IH [OF it] b1
    by (simp split: option.splits)
qed

lemma last_write_below: "last_write rs j \<noteq> None \<Longrightarrow> j < highest_written rs"
proof (induction rs)
  case Nil
  then show ?case by simp
next
  case (Cons r rs)
  show ?case
  proof (cases "last_write rs j")
    case (Some b)
    with Cons.IH show ?thesis by simp
  next
    case None
    with Cons.prems have c: "rtype r = 0" "unat (addr r) \<le> j" "j < unat (addr r) + unat (rsize r)"
      by (auto split: if_splits)
    then have "unat (rsize r) \<noteq> 0" by simp
    then have "rsize r \<noteq> 0" by (simp add: unat_eq_0)
    with c show ?thesis by simp
  qed
qed

lemma highest_written_attained:
  "0 < highest_written rs \<Longrightarrow> last_write rs (highest_written rs - 1) \<noteq> None"
proof (induction rs)
  case Nil
  then show ?case by simp
next
  case (Cons r rs)
  let ?a = "if rtype r = 0 \<and> rsize r \<noteq> 0 then unat (addr r) + unat (rsize r) else 0"
  show ?case
  proof (cases "?a \<le> highest_written rs")
    case True
    then have m: "highest_written (r # rs) = highest_written rs"
      by (simp add: max_def)
    with Cons.prems Cons.IH have "last_write rs (highest_written rs - 1) \<noteq> None" by simp
    then show ?thesis unfolding m by auto
  next
    case False
    then have m: "highest_written (r # rs) = ?a" and pos: "0 < ?a"
      by (simp_all add: max_def)
    from pos have c: "rtype r = 0" "rsize r \<noteq> 0"
      by (auto split: if_splits)
    then have "0 < unat (rsize r)"
      by (simp add: unat_gt_0)
    then have "unat (addr r) \<le> ?a - 1 \<and> ?a - 1 < unat (addr r) + unat (rsize r)"
      using c by simp
    then show ?thesis
      unfolding m using c by (auto split: option.splits)
  qed
qed

lemma iterations_above_mark:
  assumes "iterations k buffer_sz s f = Inr (s', f')" and "highest_addr s' \<le> j"
  shows "buffer s' j = buffer s j"
proof -
  have "highest_written (records_read k f) \<le> highest_addr s'"
    using iterations_highest [OF assms(1)] highest_written_le [of "records_read k f"] by simp
  then have "last_write (records_read k f) j = None"
    using last_write_below [of "records_read k f" j] assms(2) by fastforce
  then show ?thesis
    using iterations_buffer [OF assms(1), of j] by simp
qed

subsection \<open>Lines of hexadecimal digits\<close>

lemma isxdigit_plain:
  "isxdigit c \<Longrightarrow> \<not> isspace c \<and> c \<noteq> CHR ''+'' \<and> c \<noteq> CHR ''-'' \<and> c \<noteq> CHR ''x'' \<and> c \<noteq> CHR ''X''"
  by (auto simp: isxdigit_def hex_digits_def isspace_def)

lemma scan_xdigits_all:
  "length ds = w \<Longrightarrow> \<forall>c \<in> set ds. isxdigit c \<Longrightarrow>
     scan_xdigits w acc (ds @ rest) = (w, foldl (\<lambda>v c. 16 * v + xdigit_val c) acc ds, rest)"
proof (induction ds arbitrary: w acc)
  case Nil
  then show ?case by simp
next
  case (Cons d ds)
  then obtain w' where w: "w = Suc w'" "length ds = w'" by (cases w) auto
  from Cons.IH [OF w(2), of "16 * acc + xdigit_val d"] Cons.prems(2) w(1)
  show ?case by simp
qed

lemma scan_hex_digits:
  assumes "length ds = w" and "0 < w" and "\<forall>c \<in> set ds. isxdigit c"
  shows "scan_hex w (ds @ rest) = Some (hex_value ds, rest)"
proof -
  from assms obtain d ds' where ds: "ds = d # ds'" by (cases ds) auto
  have d: "isxdigit d" using assms(3) ds by simp
  note p = isxdigit_plain [OF d]
  have sc: "scan_xdigits w 0 (ds @ rest) = (w, hex_value ds, rest)"
    unfolding hex_value_def using assms(1,3) by (rule scan_xdigits_all)
  have "after_sign w (d # ds' @ rest) = Some (hex_value ds, rest)"
  proof (cases "ds' @ rest")
    case Nil
    then show ?thesis
      using sc assms(2) ds by (simp add: after_sign_def)
  next
    case (Cons x xs)
    have "\<not> (d = CHR ''0'' \<and> (x = CHR ''x'' \<or> x = CHR ''X'') \<and> 2 \<le> w)"
    proof (cases ds')
      case Nil
      then show ?thesis using assms(1) ds by simp
    next
      case (Cons y ys)
      then have "x = y" and "isxdigit y"
        using \<open>ds' @ rest = x # xs\<close> assms(3) ds by auto
      then show ?thesis using isxdigit_plain [of x] by simp
    qed
    then show ?thesis
      using sc assms(2) ds Cons by (auto simp: after_sign_def)
  qed
  then show ?thesis
    using p ds by (simp add: scan_hex_def)
qed

lemma scan_hex_field:
  assumes "pos + w \<le> length line" and "0 < w" and "1 \<le> pos"
    and "\<forall>c \<in> set (drop 1 line). isxdigit c"
  shows "scan_hex w (drop pos line) = Some (field pos w line, drop (pos + w) line)"
proof -
  have "take w (drop pos line) @ drop w (drop pos line) = drop pos line"
    by (rule append_take_drop_id)
  then have split: "drop pos line = take w (drop pos line) @ drop (pos + w) line"
    by (simp add: add.commute)
  have len: "length (take w (drop pos line)) = w"
    using assms(1) by simp
  have "set (take w (drop pos line)) \<subseteq> set (drop 1 line)"
    using set_take_subset [of w "drop pos line"] set_drop_subset_set_drop [OF assms(3), of line]
    by blast
  then have "\<forall>c \<in> set (take w (drop pos line)). isxdigit c"
    using assms(4) by blast
  from scan_hex_digits [OF len assms(2) this, of "drop (pos + w) line"] split
  show ?thesis by (simp add: field_def)
qed

lemma hex_value_range:
  assumes "pos + w \<le> length line" and "0 < w" and "1 \<le> pos"
    and "\<forall>c \<in> set (drop 1 line). isxdigit c"
  shows "0 \<le> field pos w line \<and> field pos w line < 16 ^ w"
proof -
  have "take w (drop pos line) @ drop w (drop pos line) = drop pos line"
    by (rule append_take_drop_id)
  then have split: "drop pos line = take w (drop pos line) @ drop (pos + w) line"
    by (simp add: add.commute)
  have len: "length (take w (drop pos line)) = w"
    using assms(1) by simp
  have "set (take w (drop pos line)) \<subseteq> set (drop 1 line)"
    using set_take_subset [of w "drop pos line"] set_drop_subset_set_drop [OF assms(3), of line]
    by blast
  then have "\<forall>c \<in> set (take w (drop pos line)). isxdigit c"
    using assms(4) by blast
  from scan_xdigits_all [OF len this, of 0 "[]"] scan_xdigits_bound [of w 0 "take w (drop pos line)"]
  show ?thesis by (simp add: field_def hex_value_def)
qed

lemma scan_header_fields:
  assumes "11 \<le> length line" and "\<forall>c \<in> set (drop 1 line). isxdigit c"
  shows "scan_header (drop 1 line) = Some (field 1 2 line, field 3 4 line, field 7 2 line)"
proof -
  have f1: "scan_hex 2 (drop 1 line) = Some (field 1 2 line, drop (1 + 2) line)"
    by (rule scan_hex_field) (use assms in auto)
  have f2: "scan_hex 4 (drop 3 line) = Some (field 3 4 line, drop (3 + 4) line)"
    by (rule scan_hex_field) (use assms in auto)
  have f3: "scan_hex 2 (drop 7 line) = Some (field 7 2 line, drop (7 + 2) line)"
    by (rule scan_hex_field) (use assms in auto)
  have e: "(1::nat) + 2 = 3" "(3::nat) + 4 = 7"
    by simp_all
  show ?thesis
    by (simp only: scan_header_def f1 e f2 f3 option.case prod.case)
qed

lemma read_data_fields:
  assumes "9 + 2 * n \<le> length line" and "\<forall>c \<in> set (drop 1 line). isxdigit c"
  shows "i \<le> n \<Longrightarrow> \<exists>cs'. read_data line n i ds cs
           = Inr (ds @ map (\<lambda>j. word_of_int (field (9 + 2 * j) 2 line)) [i ..< n], cs')"
proof (induction "n - i" arbitrary: i ds cs)
  case 0
  then show ?case by (subst read_data.simps) simp
next
  case (Suc m)
  then have lt: "i < n" by simp
  have "scan_hex 2 (drop (9 + 2 * i) line) = Some (field (9 + 2 * i) 2 line, drop (9 + 2 * i + 2) line)"
    using scan_hex_field [of "9 + 2 * i" 2 line] assms lt by simp
  then have st: "read_data line n i ds cs
        = read_data line n (i + 1) (ds @ [word_of_int (field (9 + 2 * i) 2 line)])
            (cs + word_of_int (field (9 + 2 * i) 2 line))"
    using lt by (subst read_data.simps) simp
  have "m = n - (i + 1)" using Suc.hyps(2) by simp
  from Suc.hyps(1) [OF this, of "ds @ [word_of_int (field (9 + 2 * i) 2 line)]"
                      "cs + word_of_int (field (9 + 2 * i) 2 line)"] lt
  obtain cs' where "read_data line n (i + 1) (ds @ [word_of_int (field (9 + 2 * i) 2 line)])
            (cs + word_of_int (field (9 + 2 * i) 2 line))
        = Inr ((ds @ [word_of_int (field (9 + 2 * i) 2 line)])
               @ map (\<lambda>j. word_of_int (field (9 + 2 * j) 2 line)) [i + 1 ..< n], cs')"
    by auto
  then show ?case
    using st lt by (simp add: upt_conv_Cons)
qed

lemma read_record_from_line_well_formed:
  assumes "well_formed_line (strip_eol line)"
  shows "\<exists>cs. read_record_from_line line = Inr (decode_line (strip_eol line), cs)"
proof -
  let ?l = "strip_eol line"
  let ?n = "field 1 2 ?l"
  from assms have len: "11 \<le> length ?l" and colon: "?l ! 0 = CHR '':''"
    and hex: "\<forall>c \<in> set (drop 1 ?l). isxdigit c"
    and sz: "int (length ?l) = 11 + 2 * ?n"
    by (simp_all add: well_formed_line_def)
  have hdr: "scan_header (drop 1 ?l) = Some (?n, field 3 4 ?l, field 7 2 ?l)"
    using len hex by (rule scan_header_fields)
  have rng: "0 \<le> ?n \<and> ?n < 256"
    using hex_value_range [of 1 2 ?l] len hex by simp
  then have cmp: "(11 + 2 * ?n) mod 2 ^ 64 = 11 + 2 * ?n"
    by (intro mod_pos_pos_trivial) auto
  have l9: "9 + 2 * nat ?n \<le> length ?l" and l11: "9 + 2 * nat ?n + 2 \<le> length ?l"
    using sz rng by linarith+
  let ?c0 = "(word_of_int ?n :: ui8) + word_of_int (field 3 4 ?l div 256)
             + word_of_int (field 3 4 ?l) + word_of_int (field 7 2 ?l)"
  from read_data_fields [OF l9 hex, of 0 "[]" ?c0]
  obtain cs' where rd: "read_data ?l (nat ?n) 0 [] ?c0
      = Inr (map (\<lambda>j. word_of_int (field (9 + 2 * j) 2 ?l)) [0 ..< nat ?n], cs')"
    by auto
  have ck: "scan_hex 2 (drop (9 + 2 * nat ?n) ?l)
            = Some (field (9 + 2 * nat ?n) 2 ?l, drop (9 + 2 * nat ?n + 2) ?l)"
    using scan_hex_field [of "9 + 2 * nat ?n" 2 ?l] l11 hex by simp
  have "read_record_from_line line = Inr (decode_line ?l, cs')"
    using len colon sz hdr cmp rd ck
    by (simp add: read_record_from_line_def Let_def decode_line_def)
  then show ?thesis ..
qed

subsection \<open>Lines the reader rejects and lines longer than the line buffer\<close>

lemma load_step_reader_error:
  assumes "fgets IHEX_LINE_MAX_SZ f = (Line l, f')" and "\<not> last_record_read s"
    and "read_record_from_line l = Inl error"
  shows "load_step buffer_sz s f = Inl (Some error, s\<lparr>line_number := line_number s + 1\<rparr>)"
  using assms by (simp add: load_step_def Let_def)

lemma fgets_chars_prefix:
  "length pre = m \<Longrightarrow> CHR 0x0A \<notin> set pre \<Longrightarrow> fgets_chars m (pre @ rest) = pre"
proof (induction pre arbitrary: m)
  case Nil
  then show ?case by simp
next
  case (Cons c pre)
  then obtain m' where "m = Suc m'" "length pre = m'" by (cases m) auto
  with Cons show ?case by auto
qed

lemma strip_eol_unchanged:
  "line \<noteq> [] \<Longrightarrow> last line \<noteq> CHR 0x0A \<Longrightarrow> last line \<noteq> CHR 0x0D \<Longrightarrow> strip_eol line = line"
  by (subst strip_eol.simps) simp

lemma fgets_long_line:
  assumes "length pre = n - 1" and "CHR 0x0A \<notin> set pre" and "CHR 0x00 \<notin> set pre"
  shows "fgets n (text_file (pre @ rest)) = (Line pre, text_file rest)"
proof -
  define m where "m = n - 1"
  have len: "length pre = m"
    using assms(1) by (simp add: m_def)
  have cs: "fgets_chars m (pre @ rest) = pre"
    using len assms(2) by (rule fgets_chars_prefix)
  have nul: "takeWhile (\<lambda>c. c \<noteq> CHR 0x00) pre = pre"
    using assms(3) by (intro takeWhile_eq_all_conv [THEN iffD2]) auto
  show ?thesis
    unfolding fgets_def m_def [symmetric]
    by (simp add: text_file_def Let_def cs nul len)
qed

subsection \<open>Concrete lines\<close>

lemma fgets_bad_checksum:
  "fgets IHEX_LINE_MAX_SZ (text_file '':01000000FF01'') = (Line '':01000000FF01'', text_file [])"
  by (simp add: fgets_def IHEX_LINE_MAX_SZ_def text_file_def Let_def eval_nat_numeral)

lemma reader_bad_checksum:
  "read_record_from_line '':01000000FF01''
   = Inr (\<lparr>rsize = 1, addr = 0, rtype = 0, data = [255], checksum = 1\<rparr>, 0)"
  by code_simp

lemma format_error_line_1: "format_error_line ''Invalid record'' 1 = ''Invalid record (line 1)''"
  by (simp add: format_error_line_def format_error_def MAX_ERROR_STRING_SZ_def decimal.simps)

lemma fgets_two_bytes:
  "fgets IHEX_LINE_MAX_SZ (text_file '':020002000102F9'') = (Line '':020002000102F9'', text_file [])"
  by (simp add: fgets_def IHEX_LINE_MAX_SZ_def text_file_def Let_def eval_nat_numeral)

lemma reader_two_bytes:
  "read_record_from_line '':020002000102F9''
   = Inr (\<lparr>rsize = 2, addr = 2, rtype = 0, data = [1, 2], checksum = 249\<rparr>, 7)"
  by code_simp

lemma validate_two_bytes:
  "validate_record \<lparr>rsize = 2, addr = 2, rtype = 0, data = [1, 2], checksum = 249\<rparr>"
  by code_simp

lemma format_addr_too_high_1:
  "format_error_line ''Addr too high to upload'' 1 = ''Addr too high to upload (line 1)''"
  by (simp add: format_error_line_def format_error_def MAX_ERROR_STRING_SZ_def decimal.simps)

lemma records_read_two_bytes:
  "records_read (Suc 0) (text_file '':020002000102F9'')
   = [\<lparr>rsize = 2, addr = 2, rtype = 0, data = [1, 2], checksum = 249\<rparr>]"
  by (simp add: fgets_two_bytes reader_two_bytes)

lemma iterations_two_bytes:
  "iterations (Suc 0) 16 (initial_state zero_buffer) (text_file '':020002000102F9'')
   = Inr (\<lparr>line_number = 1, highest_addr = 4, last_record_read = False,
            buffer = copy_data \<lparr>rsize = 2, addr = 2, rtype = 0, data = [1, 2], checksum = 249\<rparr> 0
                       zero_buffer\<rparr>, text_file [])"
  using load_step_Line [OF fgets_two_bytes _ reader_two_bytes, of "initial_state zero_buffer" 16]
  by (simp add: validate_two_bytes dispatch_record_data initial_state_def)

lemma fgets_empty_record: "fgets IHEX_LINE_MAX_SZ (text_file '':00010000FF'') = (Line '':00010000FF'', text_file [])"
  by (simp add: fgets_def IHEX_LINE_MAX_SZ_def text_file_def Let_def eval_nat_numeral)

lemma reader_empty_record:
  "read_record_from_line '':00010000FF''
   = Inr (\<lparr>rsize = 0, addr = 256, rtype = 0, data = [], checksum = 255\<rparr>, 1)"
  by code_simp

lemma copy_data_nothing: "rsize record = 0 \<Longrightarrow> copy_data record 0 buf = buf"
  by (subst copy_data.simps) simp

lemma fgets_chars_Nil: "fgets_chars m [] = []"
  by (cases m) simp_all

lemma fgets_empty: "fgets IHEX_LINE_MAX_SZ (text_file []) = (Eof, text_file [])"
  by (simp add: fgets_def IHEX_LINE_MAX_SZ_def text_file_def fgets_chars_Nil)

lemma format_eof_1:
  "format_error_line ''Unexpected end-of-file'' (Suc 0) = ''Unexpected end-of-file (line 1)''"
  by (simp add: format_error_line_def format_error_def MAX_ERROR_STRING_SZ_def decimal.simps)

lemma format_eof_2:
  "format_error_line ''Unexpected end-of-file'' (Suc (Suc 0)) = ''Unexpected end-of-file (line 2)''"
  by (simp add: format_error_line_def format_error_def MAX_ERROR_STRING_SZ_def decimal.simps)



lemma reader_terminator:
  "read_record_from_line ('':00000001FF'' @ [CHR 0x0A])
   = Inr (\<lparr>rsize = 0, addr = 0, rtype = 1, data = [], checksum = 255\<rparr>, 1)"
  by code_simp

lemma validate_terminator:
  "validate_record \<lparr>rsize = 0, addr = 0, rtype = 1, data = [], checksum = 255\<rparr>"
  by code_simp


lemma fgets_terminator:
  "fgets IHEX_LINE_MAX_SZ (text_file ('':00000001FF'' @ [CHR 0x0A]))
   = (Line ('':00000001FF'' @ [CHR 0x0A]), text_file [])"
  by (simp add: fgets_def IHEX_LINE_MAX_SZ_def text_file_def Let_def eval_nat_numeral)

lemma load_bare_terminator:
  "load_ihex_buffer (text_file ('':00000001FF'' @ [CHR 0x0A])) zero_buffer 16384
   = Some \<lparr>returned = None, buffer_out = zero_buffer, buffer_sz_out = 0\<rparr>"
proof -
  let ?s1 = "\<lparr>line_number = 1, highest_addr = 0, last_record_read = True, buffer = zero_buffer\<rparr>"
  have "load_step 16384 (initial_state zero_buffer) (text_file ('':00000001FF'' @ [CHR 0x0A]))
        = Inr (?s1, text_file [])"
    using load_step_Line [OF fgets_terminator _ reader_terminator, of "initial_state zero_buffer" 16384]
    by (simp add: validate_terminator dispatch_record_def initial_state_def)
  moreover have "load_step 16384 ?s1 (text_file []) = Inl (None, ?s1\<lparr>line_number := 2\<rparr>)"
    using load_step_Eof [of "text_file []" 16384 ?s1] by (simp add: fgets_empty)
  ultimately have "load_loop 16384 (initial_state zero_buffer) (text_file ('':00000001FF'' @ [CHR 0x0A]))
        = (None, ?s1\<lparr>line_number := 2\<rparr>)"
    by (subst load_loop.simps) (simp add: load_loop_Inl)
  then show ?thesis
    by (simp add: load_ihex_buffer_def)
qed

lemma load_empty:
  "load_ihex_buffer (text_file []) zero_buffer 16384
   = Some \<lparr>returned = Some ''Unexpected end-of-file (line 1)'', buffer_out = zero_buffer,
           buffer_sz_out = 16384\<rparr>"
proof -
  have "load_step 16384 (initial_state zero_buffer) (text_file [])
        = Inl (Some ''Unexpected end-of-file (line 1)'', (initial_state zero_buffer)\<lparr>line_number := 1\<rparr>)"
    using load_step_Eof [of "text_file []" 16384 "initial_state zero_buffer"] format_eof_1
    by (simp add: fgets_empty initial_state_def)
  then show ?thesis
    by (simp add: load_ihex_buffer_def load_loop_Inl initial_state_def)
qed

lemma fgets_bad_start:
  "fgets IHEX_LINE_MAX_SZ (text_file (''x00000001FF'' @ [CHR 0x0A]))
   = (Line (''x00000001FF'' @ [CHR 0x0A]), text_file [])"
  by (simp add: fgets_def IHEX_LINE_MAX_SZ_def text_file_def Let_def eval_nat_numeral)

lemma reader_bad_start:
  "read_record_from_line (''x00000001FF'' @ [CHR 0x0A]) = Inl ''Invalid start code''"
  by code_simp

lemma fgets_bad_checksum_line:
  "fgets IHEX_LINE_MAX_SZ (text_file ('':01000000FF01'' @ [CHR 0x0A]))
   = (Line ('':01000000FF01'' @ [CHR 0x0A]), text_file [])"
  by (simp add: fgets_def IHEX_LINE_MAX_SZ_def text_file_def Let_def eval_nat_numeral)

lemma reader_bad_checksum_line:
  "read_record_from_line ('':01000000FF01'' @ [CHR 0x0A])
   = Inr (\<lparr>rsize = 1, addr = 0, rtype = 0, data = [255], checksum = 1\<rparr>, 0)"
  by code_simp

lemma not_validate_bad_checksum:
  "\<not> validate_record \<lparr>rsize = 1, addr = 0, rtype = 0, data = [255], checksum = 1\<rparr>"
  by code_simp

lemma fgets_full_record:
  "fgets IHEX_LINE_MAX_SZ
     (text_file ('':FF000000'' @ replicate 510 (CHR ''0'') @ ''01'' @ [CHR 0x0A]
                 @ '':00000001FF'' @ [CHR 0x0A]))
   = (Line ('':FF000000'' @ replicate 510 (CHR ''0'') @ ''0''),
      text_file (''1'' @ [CHR 0x0A] @ '':00000001FF'' @ [CHR 0x0A]))"
proof -
  let ?pre = "'':FF000000'' @ replicate 510 (CHR ''0'') @ ''0''"
  let ?rest = "''1'' @ [CHR 0x0A] @ '':00000001FF'' @ [CHR 0x0A]"
  have fl: "'':FF000000'' @ replicate 510 (CHR ''0'') @ ''01'' @ [CHR 0x0A]
                 @ '':00000001FF'' @ [CHR 0x0A] = ?pre @ ?rest"
    by simp
  have "fgets IHEX_LINE_MAX_SZ (text_file (?pre @ ?rest)) = (Line ?pre, text_file ?rest)"
    by (rule fgets_long_line) (auto simp: IHEX_LINE_MAX_SZ_def)
  then show ?thesis
    unfolding fl .
qed

lemma reader_full_record_cut:
  "read_record_from_line ('':FF000000'' @ replicate 510 (CHR ''0'') @ ''0'')
   = Inl ''Invalid line length''"
proof -
  define l where "l = '':FF000000'' @ replicate 510 (CHR ''0'') @ ''0''"
  have st: "strip_eol l = l"
    unfolding l_def by (rule strip_eol_unchanged) simp_all
  have hex: "\<forall>c \<in> set (drop 1 l). isxdigit c"
    by (auto simp: l_def isxdigit_def hex_digits_def)
  have len: "length l = 520"
    by (simp add: l_def)
  have colon: "l ! 0 = CHR '':''"
    by (simp add: l_def)
  have sz: "field 1 2 l = 255"
    by (simp add: l_def field_def hex_value_def xdigit_val_def)
  have hdr: "scan_header (drop 1 l) = Some (255, field 3 4 l, field 7 2 l)"
    using scan_header_fields [of l] len hex sz by simp
  have "read_record_from_line l = Inl ''Invalid line length''"
    using st len colon hdr by (simp add: read_record_from_line_def Let_def)
  then show ?thesis
    unfolding l_def .
qed

lemma load_full_record:
  "load_ihex_buffer
     (text_file ('':FF000000'' @ replicate 510 (CHR ''0'') @ ''01'' @ [CHR 0x0A]
                 @ '':00000001FF'' @ [CHR 0x0A]))
     zero_buffer 16384
   = Some \<lparr>returned = Some ''Invalid line length'', buffer_out = zero_buffer,
           buffer_sz_out = 16384\<rparr>"
proof -
  have "load_step 16384 (initial_state zero_buffer)
          (text_file ('':FF000000'' @ replicate 510 (CHR ''0'') @ ''01'' @ [CHR 0x0A]
                 @ '':00000001FF'' @ [CHR 0x0A]))
        = Inl (Some ''Invalid line length'', (initial_state zero_buffer)\<lparr>line_number := 1\<rparr>)"
    using load_step_reader_error [OF fgets_full_record _ reader_full_record_cut,
                                  of "initial_state zero_buffer" 16384]
    by (simp add: initial_state_def)
  then show ?thesis
    by (simp add: load_ihex_buffer_def load_loop_Inl initial_state_def)
qed

lemma replicate_two: "replicate 2 c = [c, c]"
  by (simp add: numeral_2_eq_2)

lemma take_two_zeros:
  assumes "2 \<le> k"
  shows "take 2 (replicate k (CHR ''0'') @ ''01'') = ''00''"
proof -
  from assms obtain k' where k: "k = 2 + k'"
    using le_iff_add by blast
  have "replicate k (CHR ''0'') @ ''01'' = ''00'' @ (replicate k' (CHR ''0'') @ ''01'')"
    unfolding k replicate_add replicate_two by simp
  then show ?thesis by simp
qed

lemma reader_full_record:
  "\<exists>cs. read_record_from_line ('':FF000000'' @ replicate 510 (CHR ''0'') @ ''01'')
         = Inr (\<lparr>rsize = 255, addr = 0, rtype = 0, data = replicate 255 0, checksum = 1\<rparr>, cs)"
proof -
  define p where "p = '':FF000000''"
  define l where "l = p @ replicate 510 (CHR ''0'') @ ''01''"
  have lp: "length p = 9"
    by (simp add: p_def)
  have len: "length l = 521"
    by (simp add: l_def lp)
  have st: "strip_eol l = l"
    unfolding l_def by (rule strip_eol_unchanged) simp_all
  have head: "take 9 l = '':FF000000''"
    by (simp add: l_def lp) (simp add: p_def)
  have "take 2 (drop 1 (take 9 l)) = ''FF''" "take 4 (drop 3 (take 9 l)) = ''0000''"
       "take 2 (drop 7 (take 9 l)) = ''00''"
    unfolding head by simp_all
  then have "take 2 (drop 1 l) = ''FF''" "take 4 (drop 3 l) = ''0000''" "take 2 (drop 7 l) = ''00''"
    by (simp_all add: drop_take)
  then have sz: "field 1 2 l = 255" and ad: "field 3 4 l = 0" and ty: "field 7 2 l = 0"
    by (simp_all add: field_def hex_value_def xdigit_val_def)
  have "drop 519 l = ''01''"
    by (simp add: l_def lp)
  then have "field 519 2 l = 1"
    by (simp add: field_def hex_value_def xdigit_val_def)
  then have ck: "field (9 + 2 * 255) 2 l = 1"
    by simp
  have da: "field (9 + 2 * i) 2 l = 0" if "i < 255" for i
  proof -
    have "drop (9 + 2 * i) l = drop (2 * i) (replicate 510 (CHR ''0'') @ ''01'')"
      unfolding l_def using lp by simp
    also have "\<dots> = replicate (510 - 2 * i) (CHR ''0'') @ ''01''"
      using that by simp
    finally have "take 2 (drop (9 + 2 * i) l) = ''00''"
      using that by (simp only: take_two_zeros)
    then show ?thesis
      unfolding field_def by (simp add: hex_value_def xdigit_val_def)
  qed
  have "map (\<lambda>i. word_of_int (field (9 + 2 * i) 2 l) :: ui8) [0 ..< 255]
        = map (\<lambda>i. 0) [0 ..< 255]"
    by (rule map_cong [OF refl]) (simp add: da)
  also have "\<dots> = replicate (length [0 ..< (255::nat)]) 0"
    by (rule map_replicate_const)
  finally have ds: "map (\<lambda>i. word_of_int (field (9 + 2 * i) 2 l) :: ui8) [0 ..< 255]
                    = replicate 255 0"
    by (simp only: length_upt diff_zero)
  have hex: "\<forall>c \<in> set (drop 1 l). isxdigit c"
    by (auto simp: l_def p_def isxdigit_def hex_digits_def)
  have colon: "l ! 0 = CHR '':''"
    by (simp add: l_def p_def)
  have "well_formed_line (strip_eol l)"
    unfolding st well_formed_line_def using len colon hex sz by simp
  from read_record_from_line_well_formed [OF this]
  obtain cs where rd: "read_record_from_line l = Inr (decode_line l, cs)"
    unfolding st by blast
  have "decode_line l
      = \<lparr>rsize = word_of_int 255, addr = word_of_int 0, rtype = word_of_int 0,
         data = replicate 255 0, checksum = word_of_int 1\<rparr>"
    unfolding decode_line_def by (simp only: sz ad ty nat_numeral ds ck)
  then have "decode_line l
      = \<lparr>rsize = 255, addr = 0, rtype = 0, data = replicate 255 0, checksum = 1\<rparr>"
    by simp
  with rd show ?thesis
    unfolding l_def p_def by auto
qed

lemma validate_full_record:
  "validate_record \<lparr>rsize = 255, addr = 0, rtype = 0, data = replicate 255 0, checksum = 1\<rparr>"
proof -
  let ?r = "\<lparr>rsize = 255, addr = 0, rtype = 0, data = replicate 255 (0::ui8), checksum = 1\<rparr>"
  have "map (\<lambda>i. unat (replicate 255 (0::ui8) ! i)) [0 ..< 255] = map (\<lambda>i. 0) [0 ..< 255]"
    by (rule map_cong [OF refl]) simp
  also have "\<dots> = replicate (length [0 ..< (255::nat)]) 0"
    by (rule map_replicate_const)
  finally have "sum_list (map (\<lambda>i. unat (replicate 255 (0::ui8) ! i)) [0 ..< 255]) = 0"
    by (simp only: sum_list_replicate mult_zero_right)
  moreover have "byte_sum ?r
     = 255 + 0 + 0 + 0 + sum_list (map (\<lambda>i. unat (replicate 255 (0::ui8) ! i)) [0 ..< 255]) + 1"
    unfolding byte_sum_def by (simp del: upt_rec_numeral)
  ultimately have "byte_sum ?r = 256"
    by simp
  then show ?thesis
    by (simp add: validate_record_byte_sum)
qed

lemma fgets_three_1:
  "fgets IHEX_LINE_MAX_SZ (text_file ('':020002000102F9'' @ [CHR 0x0A] @ '':020003000A0BE6'' @ [CHR 0x0A] @ '':0100000007F8'' @ [CHR 0x0A]))
   = (Line ('':020002000102F9'' @ [CHR 0x0A]), text_file ('':020003000A0BE6'' @ [CHR 0x0A] @ '':0100000007F8'' @ [CHR 0x0A]))"
  by (simp add: fgets_def IHEX_LINE_MAX_SZ_def text_file_def Let_def eval_nat_numeral)

lemma fgets_three_2:
  "fgets IHEX_LINE_MAX_SZ (text_file ('':020003000A0BE6'' @ [CHR 0x0A] @ '':0100000007F8'' @ [CHR 0x0A]))
   = (Line ('':020003000A0BE6'' @ [CHR 0x0A]), text_file ('':0100000007F8'' @ [CHR 0x0A]))"
  by (simp add: fgets_def IHEX_LINE_MAX_SZ_def text_file_def Let_def eval_nat_numeral)

lemma fgets_three_3:
  "fgets IHEX_LINE_MAX_SZ (text_file ('':0100000007F8'' @ [CHR 0x0A]))
   = (Line ('':0100000007F8'' @ [CHR 0x0A]), text_file [])"
  by (simp add: fgets_def IHEX_LINE_MAX_SZ_def text_file_def Let_def eval_nat_numeral)

lemma reader_three_1:
  "read_record_from_line ('':020002000102F9'' @ [CHR 0x0A]) = Inr (\<lparr>rsize = 2, addr = 2, rtype = 0, data = [1, 2], checksum = 249\<rparr>, 7)"
  by code_simp

lemma reader_three_2:
  "read_record_from_line ('':020003000A0BE6'' @ [CHR 0x0A]) = Inr (\<lparr>rsize = 2, addr = 3, rtype = 0, data = [10, 11], checksum = 230\<rparr>, 26)"
  by code_simp

lemma reader_three_3:
  "read_record_from_line ('':0100000007F8'' @ [CHR 0x0A]) = Inr (\<lparr>rsize = 1, addr = 0, rtype = 0, data = [7], checksum = 248\<rparr>, 8)"
  by code_simp

lemma validate_three:
  "validate_record \<lparr>rsize = 2, addr = 3, rtype = 0, data = [10, 11], checksum = 230\<rparr>"
  "validate_record \<lparr>rsize = 1, addr = 0, rtype = 0, data = [7], checksum = 248\<rparr>"
  by code_simp+

lemma records_read_three:
  "records_read (Suc (Suc (Suc 0))) (text_file ('':020002000102F9'' @ [CHR 0x0A] @ '':020003000A0BE6'' @ [CHR 0x0A] @ '':0100000007F8'' @ [CHR 0x0A]))
   = [\<lparr>rsize = 2, addr = 2, rtype = 0, data = [1, 2], checksum = 249\<rparr>,
      \<lparr>rsize = 2, addr = 3, rtype = 0, data = [10, 11], checksum = 230\<rparr>,
      \<lparr>rsize = 1, addr = 0, rtype = 0, data = [7], checksum = 248\<rparr>]"
  using fgets_three_1 fgets_three_2 fgets_three_3 reader_three_1 reader_three_2 reader_three_3
  by simp

lemma iterations_three:
  "iterations (Suc (Suc (Suc 0))) 16 (initial_state zero_buffer)
     (text_file ('':020002000102F9'' @ [CHR 0x0A] @ '':020003000A0BE6'' @ [CHR 0x0A] @ '':0100000007F8'' @ [CHR 0x0A]))
   = Inr (\<lparr>line_number = 3, highest_addr = 5, last_record_read = False,
     buffer = copy_data \<lparr>rsize = 1, addr = 0, rtype = 0, data = [7], checksum = 248\<rparr> 0
       (copy_data \<lparr>rsize = 2, addr = 3, rtype = 0, data = [10, 11], checksum = 230\<rparr> 0
        (copy_data \<lparr>rsize = 2, addr = 2, rtype = 0, data = [1, 2], checksum = 249\<rparr> 0 zero_buffer))\<rparr>, text_file [])"
proof -
  let ?b1 = "copy_data \<lparr>rsize = 2, addr = 2, rtype = 0, data = [1, 2], checksum = 249\<rparr> 0 zero_buffer"
  let ?b2 = "copy_data \<lparr>rsize = 2, addr = 3, rtype = 0, data = [10, 11], checksum = 230\<rparr> 0
        (copy_data \<lparr>rsize = 2, addr = 2, rtype = 0, data = [1, 2], checksum = 249\<rparr> 0 zero_buffer)"
  let ?s1 = "\<lparr>line_number = 1, highest_addr = 4, last_record_read = False, buffer = ?b1\<rparr>"
  let ?s2 = "\<lparr>line_number = 2, highest_addr = 5, last_record_read = False, buffer = ?b2\<rparr>"
  have 1: "load_step 16 (initial_state zero_buffer) (text_file ('':020002000102F9'' @ [CHR 0x0A] @ '':020003000A0BE6'' @ [CHR 0x0A] @ '':0100000007F8'' @ [CHR 0x0A]))
           = Inr (?s1, text_file ('':020003000A0BE6'' @ [CHR 0x0A] @ '':0100000007F8'' @ [CHR 0x0A]))"
    using load_step_Line [OF fgets_three_1 _ reader_three_1, of "initial_state zero_buffer" 16]
    by (simp add: validate_two_bytes dispatch_record_data initial_state_def)
  have 2: "load_step 16 ?s1 (text_file ('':020003000A0BE6'' @ [CHR 0x0A] @ '':0100000007F8'' @ [CHR 0x0A]))
           = Inr (?s2, text_file ('':0100000007F8'' @ [CHR 0x0A]))"
    using load_step_Line [OF fgets_three_2 _ reader_three_2, of ?s1 16]
    by (simp add: validate_three dispatch_record_data)
  have 3: "load_step 16 ?s2 (text_file ('':0100000007F8'' @ [CHR 0x0A]))
           = Inr (\<lparr>line_number = 3, highest_addr = 5, last_record_read = False,
     buffer = copy_data \<lparr>rsize = 1, addr = 0, rtype = 0, data = [7], checksum = 248\<rparr> 0
       (copy_data \<lparr>rsize = 2, addr = 3, rtype = 0, data = [10, 11], checksum = 230\<rparr> 0
        (copy_data \<lparr>rsize = 2, addr = 2, rtype = 0, data = [1, 2], checksum = 249\<rparr> 0 zero_buffer))\<rparr>, text_file [])"
    using load_step_Line [OF fgets_three_3 _ reader_three_3, of ?s2 16]
    by (simp add: validate_three dispatch_record_data)
  show ?thesis
    using 1 2 3 by simp
qed

section \<open>The claims\<close>

text \<open>
  C1. The validator accepts a record exactly when the sum of its size, the high and the
  low byte of its address, its type, its data bytes and its declared checksum is 0
  modulo 256. In the loader, a parsed record whose sum is not 0 modulo 256 ends the load
  with the message \<^verbatim>\<open>Invalid record (line n)\<close>, and one whose sum is 0 goes on to
  the dispatch on its type.
\<close>

theorem validator_accepts_iff_sum_zero:
  "(validate_record record \<longleftrightarrow> byte_sum record mod 256 = 0) \<and>
   (fgets IHEX_LINE_MAX_SZ f = (Line l, f') \<and> \<not> last_record_read s \<and>
    read_record_from_line l = Inr (record, cs) \<longrightarrow>
      load_step buffer_sz s f =
        (if byte_sum record mod 256 = 0
         then (case dispatch_record buffer_sz (s\<lparr>line_number := line_number s + 1\<rparr>) record of
                 Inl error \<Rightarrow> Inl (Some error, s\<lparr>line_number := line_number s + 1\<rparr>)
               | Inr s' \<Rightarrow> Inr (s', f'))
         else Inl (Some (format_error_line ''Invalid record'' (line_number s + 1)),
                   s\<lparr>line_number := line_number s + 1\<rparr>)))"
  using load_step_Line [of f l f' s "record" cs buffer_sz] validate_record_byte_sum [of "record"]
  by auto

theorem validator_accepts_iff_sum_zero_witness:
  "fgets IHEX_LINE_MAX_SZ (text_file '':01000000FF01'') = (Line '':01000000FF01'', text_file []) \<and>
   \<not> last_record_read (initial_state zero_buffer) \<and>
   read_record_from_line '':01000000FF01''
     = Inr (\<lparr>rsize = 1, addr = 0, rtype = 0, data = [255], checksum = 1\<rparr>, 0) \<and>
   byte_sum \<lparr>rsize = 1, addr = 0, rtype = 0, data = [255], checksum = 1\<rparr> = 257 \<and>
   \<not> validate_record \<lparr>rsize = 1, addr = 0, rtype = 0, data = [255], checksum = 1\<rparr> \<and>
   load_step 16384 (initial_state zero_buffer) (text_file '':01000000FF01'')
     = Inl (Some ''Invalid record (line 1)'', (initial_state zero_buffer)\<lparr>line_number := 1\<rparr>)"
  using validator_accepts_iff_sum_zero
          [of "\<lparr>rsize = 1, addr = 0, rtype = 0, data = [255], checksum = 1\<rparr>"
              "text_file '':01000000FF01''" "'':01000000FF01''" "text_file []"
              "initial_state zero_buffer" 0 16384]
        fgets_bad_checksum reader_bad_checksum format_error_line_1
  by (simp add: initial_state_def byte_sum_def)

text \<open>
  C2. For a validated data record (type 0) with \<open>end = address + size\<close>, the loader
  returns \<^verbatim>\<open>Addr too high to upload (line n)\<close> exactly when \<open>end\<close> is at least
  the buffer capacity, so also when \<open>end\<close> equals the capacity; it goes on to the next
  line exactly when \<open>end\<close> is below the capacity.
\<close>

theorem data_record_rejected_iff_end_reaches_capacity:
  assumes "fgets IHEX_LINE_MAX_SZ f = (Line l, f')" and "\<not> last_record_read s"
    and "read_record_from_line l = Inr (record, cs)" and "validate_record record"
    and "rtype record = 0"
  shows "(load_step buffer_sz s f
            = Inl (Some (format_error_line ''Addr too high to upload'' (line_number s + 1)),
                   s\<lparr>line_number := line_number s + 1\<rparr>)
          \<longleftrightarrow> buffer_sz \<le> unat (addr record) + unat (rsize record)) \<and>
         ((\<exists>s'. load_step buffer_sz s f = Inr (s', f'))
          \<longleftrightarrow> unat (addr record) + unat (rsize record) < buffer_sz)"
  using load_step_Line [OF assms(1,2,3), of buffer_sz] assms(4)
        dispatch_record_data [OF assms(5), of buffer_sz "s\<lparr>line_number := line_number s + 1\<rparr>"]
  by auto

theorem data_record_rejected_iff_end_reaches_capacity_witness:
  "fgets IHEX_LINE_MAX_SZ (text_file '':020002000102F9'') = (Line '':020002000102F9'', text_file []) \<and>
   \<not> last_record_read (initial_state zero_buffer) \<and>
   read_record_from_line '':020002000102F9''
     = Inr (\<lparr>rsize = 2, addr = 2, rtype = 0, data = [1, 2], checksum = 249\<rparr>, 7) \<and>
   validate_record \<lparr>rsize = 2, addr = 2, rtype = 0, data = [1, 2], checksum = 249\<rparr> \<and>
   load_step 4 (initial_state zero_buffer) (text_file '':020002000102F9'')
     = Inl (Some ''Addr too high to upload (line 1)'', (initial_state zero_buffer)\<lparr>line_number := 1\<rparr>) \<and>
   (\<exists>s'. load_step 5 (initial_state zero_buffer) (text_file '':020002000102F9'') = Inr (s', text_file []))"
  using data_record_rejected_iff_end_reaches_capacity
          [OF fgets_two_bytes _ reader_two_bytes validate_two_bytes, of "initial_state zero_buffer" 4]
        data_record_rejected_iff_end_reaches_capacity
          [OF fgets_two_bytes _ reader_two_bytes validate_two_bytes, of "initial_state zero_buffer" 5]
        fgets_two_bytes reader_two_bytes validate_two_bytes format_addr_too_high_1
  by (simp add: initial_state_def)

text \<open>
  C4. A validated data record with \<open>address + size\<close> below the capacity is accepted, the
  buffer then holds data byte \<open>i\<close> at position \<open>address + i\<close> for every \<open>i\<close>
  below \<open>size\<close>, and every position outside \<open>address .. address + size - 1\<close>
  keeps its content. One with \<open>address + size\<close> at or above the capacity fails with
  \<^verbatim>\<open>Addr too high to upload\<close> and leaves the whole buffer as it was.
\<close>

theorem data_record_frame:
  assumes "fgets IHEX_LINE_MAX_SZ f = (Line l, f')" and "\<not> last_record_read s"
    and "read_record_from_line l = Inr (record, cs)" and "validate_record record"
    and "rtype record = 0"
  shows "(unat (addr record) + unat (rsize record) < buffer_sz \<longrightarrow>
            (\<exists>s'. load_step buffer_sz s f = Inr (s', f') \<and>
                  (\<forall>i < unat (rsize record). buffer s' (unat (addr record) + i) = data record ! i) \<and>
                  (\<forall>j. j < unat (addr record) \<or> unat (addr record) + unat (rsize record) \<le> j
                        \<longrightarrow> buffer s' j = buffer s j))) \<and>
         (buffer_sz \<le> unat (addr record) + unat (rsize record) \<longrightarrow>
            (\<exists>s'. load_step buffer_sz s f
                     = Inl (Some (format_error_line ''Addr too high to upload'' (line_number s + 1)), s')
                   \<and> buffer s' = buffer s))"
  using load_step_Line [OF assms(1,2,3), of buffer_sz] assms(4)
        dispatch_record_data [OF assms(5), of buffer_sz "s\<lparr>line_number := line_number s + 1\<rparr>"]
  by (auto simp: copy_data_apply)

theorem data_record_frame_witness:
  "fgets IHEX_LINE_MAX_SZ (text_file '':020002000102F9'') = (Line '':020002000102F9'', text_file []) \<and>
   \<not> last_record_read (initial_state zero_buffer) \<and>
   read_record_from_line '':020002000102F9''
     = Inr (\<lparr>rsize = 2, addr = 2, rtype = 0, data = [1, 2], checksum = 249\<rparr>, 7) \<and>
   validate_record \<lparr>rsize = 2, addr = 2, rtype = 0, data = [1, 2], checksum = 249\<rparr> \<and>
   (\<exists>s'. load_step 5 (initial_state zero_buffer) (text_file '':020002000102F9'') = Inr (s', text_file [])
         \<and> buffer s' 2 = 1 \<and> buffer s' 3 = 2 \<and> (\<forall>j. j < 2 \<or> 4 \<le> j \<longrightarrow> buffer s' j = 0)) \<and>
   (\<exists>s'. load_step 4 (initial_state zero_buffer) (text_file '':020002000102F9'')
           = Inl (Some ''Addr too high to upload (line 1)'', s') \<and> buffer s' = zero_buffer)"
proof -
  note at5 = data_record_frame
          [OF fgets_two_bytes _ reader_two_bytes validate_two_bytes, of "initial_state zero_buffer" 5]
  note at4 = data_record_frame
          [OF fgets_two_bytes _ reader_two_bytes validate_two_bytes, of "initial_state zero_buffer" 4]
  have init: "\<not> last_record_read (initial_state zero_buffer)"
    by (simp add: initial_state_def)
  from at5 init obtain s' where
    s': "load_step 5 (initial_state zero_buffer) (text_file '':020002000102F9'') = Inr (s', text_file [])"
        "\<forall>i<2. buffer s' (2 + i) = [1, 2] ! i"
        "\<forall>j. j < 2 \<or> 4 \<le> j \<longrightarrow> buffer s' j = buffer (initial_state zero_buffer) j"
    by auto
  have "buffer s' 2 = 1"
    using s'(2) [rule_format, of 0] by simp
  moreover have "buffer s' 3 = 2"
    using s'(2) [rule_format, of 1] by simp
  moreover from s'(3) have "\<forall>j. j < 2 \<or> 4 \<le> j \<longrightarrow> buffer s' j = 0"
    by (simp add: initial_state_def zero_buffer_def)
  moreover have "\<exists>s'. load_step 4 (initial_state zero_buffer) (text_file '':020002000102F9'')
           = Inl (Some ''Addr too high to upload (line 1)'', s') \<and> buffer s' = zero_buffer"
    using at4 init format_addr_too_high_1 by (simp add: initial_state_def)
  ultimately show ?thesis
    using s'(1) fgets_two_bytes reader_two_bytes validate_two_bytes init by blast
qed

text \<open>
  C5. As the claim words it, the mark would be the highest address written so far, plus
  one. A data record of size 0 writes nothing, and yet raises the mark to its address:
  after the single line \<^verbatim>\<open>:00010000FF\<close> the mark is 256, the buffer is as before
  and the highest address written, plus one, is 0.
\<close>

theorem high_water_mark_above_written_counterexample:
  "iterations (Suc 0) 16384 (initial_state zero_buffer) (text_file '':00010000FF'')
     = Inr (\<lparr>line_number = 1, highest_addr = 256, last_record_read = False, buffer = zero_buffer\<rparr>,
            text_file []) \<and>
   highest_written (records_read (Suc 0) (text_file '':00010000FF'')) = 0"
  by (simp add: load_step_def fgets_empty_record reader_empty_record initial_state_def
        dispatch_record_def copy_data_nothing)

text \<open>
  C5, amended. The mark starts at 0 and no record lowers it. After any number of
  iterations that went on it is the largest \<open>address + size\<close> of the data records
  processed so far (or the mark the iterations started from, when that is larger). The
  buffer then holds, at every address, the byte of the last data record that wrote there
  and, where none did, what it held before; the addresses written are all below the
  highest address written plus one, which is itself written when it is not 0. That
  number is never above the mark, no address at or above the mark has changed, and the
  two are equal when every data record processed has a size other than 0. The bytes of
  the latest data record are in the buffer at its addresses, whatever earlier records
  wrote there.
\<close>

theorem high_water_mark_is_highest_end:
  "highest_addr (initial_state buf) = 0 \<and>
   (iterations k buffer_sz s f = Inr (s', f') \<longrightarrow>
      highest_addr s \<le> highest_addr s' \<and>
      highest_addr s' = max (highest_addr s) (highest_end (records_read k f)) \<and>
      buffer s' j = (case last_write (records_read k f) j of Some b \<Rightarrow> b | None \<Rightarrow> buffer s j) \<and>
      (last_write (records_read k f) j \<noteq> None \<longrightarrow> j < highest_written (records_read k f)) \<and>
      (0 < highest_written (records_read k f) \<longrightarrow>
         last_write (records_read k f) (highest_written (records_read k f) - 1) \<noteq> None) \<and>
      (highest_addr s' \<le> j \<longrightarrow> buffer s' j = buffer s j) \<and>
      highest_written (records_read k f) \<le> highest_addr s' \<and>
      ((\<forall>r \<in> set (records_read k f). rtype r = 0 \<longrightarrow> rsize r \<noteq> 0) \<and> highest_addr s = 0 \<longrightarrow>
         highest_addr s' = highest_written (records_read k f)) \<and>
      (0 < k \<and> rtype (last (records_read k f)) = 0 \<longrightarrow>
         (\<forall>i < unat (rsize (last (records_read k f))).
            buffer s' (unat (addr (last (records_read k f))) + i)
            = data (last (records_read k f)) ! i)))"
proof (intro conjI impI)
  show "highest_addr (initial_state buf) = 0"
    by (simp add: initial_state_def)
next
  assume it: "iterations k buffer_sz s f = Inr (s', f')"
  note h = iterations_highest [OF it]
  show "highest_addr s \<le> highest_addr s'"
    using h by simp
  show "highest_addr s' = max (highest_addr s) (highest_end (records_read k f))"
    by (rule h)
  show "buffer s' j = (case last_write (records_read k f) j of Some b \<Rightarrow> b | None \<Rightarrow> buffer s j)"
    using it by (rule iterations_buffer)
  show "highest_written (records_read k f) \<le> highest_addr s'"
    using h highest_written_le [of "records_read k f"] by simp
next
  assume "iterations k buffer_sz s f = Inr (s', f')"
    and "last_write (records_read k f) j \<noteq> None"
  then show "j < highest_written (records_read k f)"
    using last_write_below by blast
next
  assume "iterations k buffer_sz s f = Inr (s', f')"
    and "0 < highest_written (records_read k f)"
  then show "last_write (records_read k f) (highest_written (records_read k f) - 1) \<noteq> None"
    using highest_written_attained by blast
next
  assume "iterations k buffer_sz s f = Inr (s', f')" and "highest_addr s' \<le> j"
  then show "buffer s' j = buffer s j"
    by (rule iterations_above_mark)
next
  assume it: "iterations k buffer_sz s f = Inr (s', f')"
    and a: "(\<forall>r \<in> set (records_read k f). rtype r = 0 \<longrightarrow> rsize r \<noteq> 0) \<and> highest_addr s = 0"
  show "highest_addr s' = highest_written (records_read k f)"
    using iterations_highest [OF it] a highest_written_eq [of "records_read k f"] by simp
next
  assume it: "iterations k buffer_sz s f = Inr (s', f')"
    and a: "0 < k \<and> rtype (last (records_read k f)) = 0"
  then obtain k' where k: "k = Suc k'" by (cases k) auto
  show "\<forall>i < unat (rsize (last (records_read k f))).
            buffer s' (unat (addr (last (records_read k f))) + i)
            = data (last (records_read k f)) ! i"
    using iterations_last_record [of k' buffer_sz s f s' f'] it a unfolding k by simp
qed

theorem high_water_mark_is_highest_end_witness:
  "iterations (Suc (Suc (Suc 0))) 16 (initial_state zero_buffer)
     (text_file ('':020002000102F9'' @ [CHR 0x0A] @ '':020003000A0BE6'' @ [CHR 0x0A] @ '':0100000007F8'' @ [CHR 0x0A]))
   = Inr (\<lparr>line_number = 3, highest_addr = 5, last_record_read = False,
     buffer = copy_data \<lparr>rsize = 1, addr = 0, rtype = 0, data = [7], checksum = 248\<rparr> 0
       (copy_data \<lparr>rsize = 2, addr = 3, rtype = 0, data = [10, 11], checksum = 230\<rparr> 0
        (copy_data \<lparr>rsize = 2, addr = 2, rtype = 0, data = [1, 2], checksum = 249\<rparr> 0 zero_buffer))\<rparr>, text_file []) \<and>
   records_read (Suc (Suc (Suc 0))) (text_file ('':020002000102F9'' @ [CHR 0x0A] @ '':020003000A0BE6'' @ [CHR 0x0A] @ '':0100000007F8'' @ [CHR 0x0A]))
   = [\<lparr>rsize = 2, addr = 2, rtype = 0, data = [1, 2], checksum = 249\<rparr>,
      \<lparr>rsize = 2, addr = 3, rtype = 0, data = [10, 11], checksum = 230\<rparr>,
      \<lparr>rsize = 1, addr = 0, rtype = 0, data = [7], checksum = 248\<rparr>] \<and>
   highest_addr (initial_state zero_buffer) = 0 \<and>
   highest_end [\<lparr>rsize = 2, addr = 2, rtype = 0, data = [1, 2], checksum = 249\<rparr>,
      \<lparr>rsize = 2, addr = 3, rtype = 0, data = [10, 11], checksum = 230\<rparr>,
      \<lparr>rsize = 1, addr = 0, rtype = 0, data = [7], checksum = 248\<rparr>] = 5 \<and>
   highest_written [\<lparr>rsize = 2, addr = 2, rtype = 0, data = [1, 2], checksum = 249\<rparr>,
      \<lparr>rsize = 2, addr = 3, rtype = 0, data = [10, 11], checksum = 230\<rparr>,
      \<lparr>rsize = 1, addr = 0, rtype = 0, data = [7], checksum = 248\<rparr>] = 5 \<and>
   last_write [\<lparr>rsize = 2, addr = 2, rtype = 0, data = [1, 2], checksum = 249\<rparr>,
      \<lparr>rsize = 2, addr = 3, rtype = 0, data = [10, 11], checksum = 230\<rparr>,
      \<lparr>rsize = 1, addr = 0, rtype = 0, data = [7], checksum = 248\<rparr>] 4 = Some 11 \<and>
   last_write [\<lparr>rsize = 2, addr = 2, rtype = 0, data = [1, 2], checksum = 249\<rparr>,
      \<lparr>rsize = 2, addr = 3, rtype = 0, data = [10, 11], checksum = 230\<rparr>,
      \<lparr>rsize = 1, addr = 0, rtype = 0, data = [7], checksum = 248\<rparr>] 5 = None \<and>
   copy_data \<lparr>rsize = 1, addr = 0, rtype = 0, data = [7], checksum = 248\<rparr> 0
       (copy_data \<lparr>rsize = 2, addr = 3, rtype = 0, data = [10, 11], checksum = 230\<rparr> 0
        (copy_data \<lparr>rsize = 2, addr = 2, rtype = 0, data = [1, 2], checksum = 249\<rparr> 0 zero_buffer)) 0 = 7 \<and>
   copy_data \<lparr>rsize = 1, addr = 0, rtype = 0, data = [7], checksum = 248\<rparr> 0
       (copy_data \<lparr>rsize = 2, addr = 3, rtype = 0, data = [10, 11], checksum = 230\<rparr> 0
        (copy_data \<lparr>rsize = 2, addr = 2, rtype = 0, data = [1, 2], checksum = 249\<rparr> 0 zero_buffer)) 1 = 0 \<and>
   copy_data \<lparr>rsize = 1, addr = 0, rtype = 0, data = [7], checksum = 248\<rparr> 0
       (copy_data \<lparr>rsize = 2, addr = 3, rtype = 0, data = [10, 11], checksum = 230\<rparr> 0
        (copy_data \<lparr>rsize = 2, addr = 2, rtype = 0, data = [1, 2], checksum = 249\<rparr> 0 zero_buffer)) 2 = 1 \<and>
   copy_data \<lparr>rsize = 1, addr = 0, rtype = 0, data = [7], checksum = 248\<rparr> 0
       (copy_data \<lparr>rsize = 2, addr = 3, rtype = 0, data = [10, 11], checksum = 230\<rparr> 0
        (copy_data \<lparr>rsize = 2, addr = 2, rtype = 0, data = [1, 2], checksum = 249\<rparr> 0 zero_buffer)) 3 = 10 \<and>
   copy_data \<lparr>rsize = 1, addr = 0, rtype = 0, data = [7], checksum = 248\<rparr> 0
       (copy_data \<lparr>rsize = 2, addr = 3, rtype = 0, data = [10, 11], checksum = 230\<rparr> 0
        (copy_data \<lparr>rsize = 2, addr = 2, rtype = 0, data = [1, 2], checksum = 249\<rparr> 0 zero_buffer)) 4 = 11 \<and>
   copy_data \<lparr>rsize = 1, addr = 0, rtype = 0, data = [7], checksum = 248\<rparr> 0
       (copy_data \<lparr>rsize = 2, addr = 3, rtype = 0, data = [10, 11], checksum = 230\<rparr> 0
        (copy_data \<lparr>rsize = 2, addr = 2, rtype = 0, data = [1, 2], checksum = 249\<rparr> 0 zero_buffer)) 5 = 0"
proof -
  let ?f = "text_file ('':020002000102F9'' @ [CHR 0x0A] @ '':020003000A0BE6'' @ [CHR 0x0A] @ '':0100000007F8'' @ [CHR 0x0A])"
  let ?s3 = "\<lparr>line_number = 3, highest_addr = 5, last_record_read = False,
     buffer = copy_data \<lparr>rsize = 1, addr = 0, rtype = 0, data = [7], checksum = 248\<rparr> 0
       (copy_data \<lparr>rsize = 2, addr = 3, rtype = 0, data = [10, 11], checksum = 230\<rparr> 0
        (copy_data \<lparr>rsize = 2, addr = 2, rtype = 0, data = [1, 2], checksum = 249\<rparr> 0 zero_buffer))\<rparr>"
  note t = high_water_mark_is_highest_end
             [of zero_buffer "Suc (Suc (Suc 0))" 16 "initial_state zero_buffer" ?f ?s3 "text_file []"]
  have hyp: "\<forall>r \<in> set (records_read (Suc (Suc (Suc 0))) ?f). rtype r = 0 \<longrightarrow> rsize r \<noteq> 0"
    unfolding records_read_three by simp
  have b: "buffer ?s3 j = (case last_write (records_read (Suc (Suc (Suc 0))) ?f) j of
                             Some b \<Rightarrow> b | None \<Rightarrow> buffer (initial_state zero_buffer) j)" for j
    using t [of j] iterations_three by blast
  have hw: "highest_addr ?s3 = highest_written (records_read (Suc (Suc (Suc 0))) ?f)"
    using t [of 0] iterations_three hyp by (simp add: initial_state_def del: iterations.simps records_read.simps)
  have he: "highest_addr ?s3 = max (highest_addr (initial_state zero_buffer))
                                 (highest_end (records_read (Suc (Suc (Suc 0))) ?f))"
    using t [of 0] iterations_three by blast
  have "last_write (records_read (Suc (Suc (Suc 0))) ?f)
          (highest_written (records_read (Suc (Suc (Suc 0))) ?f) - 1) \<noteq> None"
    using t [of 0] iterations_three hw by (simp del: iterations.simps records_read.simps)
  show ?thesis
    using b [of 0] b [of 1] b [of 2] b [of 3] b [of 4] b [of 5] hw he
          iterations_three records_read_three
    unfolding records_read_three
    by (simp add: initial_state_def zero_buffer_def del: iterations.simps)
qed

text \<open>
  C6. When the loader reaches end of input after \<open>k\<close> lines, none of which was a
  terminating record (type 1), it returns \<^verbatim>\<open>Unexpected end-of-file (line k+1)\<close> and
  leaves \<^verbatim>\<open>*buffer_sz\<close> as it was; with \<open>k = 0\<close> this is the empty input.
\<close>

theorem end_of_input_before_terminator:
  assumes "0 < buffer_sz" and "iterations k buffer_sz (initial_state buf) f = Inr (s, f')"
    and "\<forall>r \<in> set (records_read k f). rtype r \<noteq> 1"
    and "fst (fgets IHEX_LINE_MAX_SZ f') = Eof"
  shows "load_ihex_buffer f buf buffer_sz
         = Some \<lparr>returned = Some (format_error_line ''Unexpected end-of-file'' (k + 1)),
                 buffer_out = buffer s, buffer_sz_out = buffer_sz\<rparr>"
proof -
  have n: "\<not> last_record_read s"
    using iterations_terminated [OF assms(2)] assms(3) by (simp add: initial_state_def)
  have k: "line_number s = k"
    using iterations_line_number [OF assms(2)] by (simp add: initial_state_def)
  have "load_loop buffer_sz (initial_state buf) f = load_loop buffer_sz s f'"
    using assms(2) by (rule load_loop_iterations)
  also have "\<dots> = (Some (format_error_line ''Unexpected end-of-file'' (k + 1)),
                   s\<lparr>line_number := k + 1\<rparr>)"
    using load_step_Eof [OF assms(4), of buffer_sz s] n k by (simp add: load_loop_Inl)
  finally show ?thesis
    using assms(1) by (simp add: load_ihex_buffer_def)
qed

theorem end_of_input_before_terminator_witness:
  "(0::nat) < 16 \<and>
   iterations 0 16 (initial_state zero_buffer) (text_file []) = Inr (initial_state zero_buffer, text_file []) \<and>
   records_read 0 (text_file []) = [] \<and>
   fst (fgets IHEX_LINE_MAX_SZ (text_file [])) = Eof \<and>
   load_ihex_buffer (text_file []) zero_buffer 16
     = Some \<lparr>returned = Some ''Unexpected end-of-file (line 1)'', buffer_out = zero_buffer,
             buffer_sz_out = 16\<rparr> \<and>
   iterations (Suc 0) 16 (initial_state zero_buffer) (text_file '':020002000102F9'')
     = Inr (\<lparr>line_number = 1, highest_addr = 4, last_record_read = False,
              buffer = copy_data \<lparr>rsize = 2, addr = 2, rtype = 0, data = [1, 2], checksum = 249\<rparr> 0
                         zero_buffer\<rparr>, text_file []) \<and>
   records_read (Suc 0) (text_file '':020002000102F9'')
     = [\<lparr>rsize = 2, addr = 2, rtype = 0, data = [1, 2], checksum = 249\<rparr>] \<and>
   rtype \<lparr>rsize = 2, addr = 2, rtype = 0, data = [1, 2], checksum = (249::ui8)\<rparr> \<noteq> (1::ui8) \<and>
   load_ihex_buffer (text_file '':020002000102F9'') zero_buffer 16
     = Some \<lparr>returned = Some ''Unexpected end-of-file (line 2)'',
             buffer_out = copy_data \<lparr>rsize = 2, addr = 2, rtype = 0, data = [1, 2], checksum = 249\<rparr> 0
                            zero_buffer,
             buffer_sz_out = 16\<rparr>"
proof -
  have e: "fst (fgets IHEX_LINE_MAX_SZ (text_file [])) = Eof"
    by (simp add: fgets_empty)
  have r: "\<forall>r \<in> set (records_read (Suc 0) (text_file '':020002000102F9'')). rtype r \<noteq> 1"
    unfolding records_read_two_bytes by simp
  have "load_ihex_buffer (text_file []) zero_buffer 16
     = Some \<lparr>returned = Some ''Unexpected end-of-file (line 1)'', buffer_out = zero_buffer,
             buffer_sz_out = 16\<rparr>"
    using end_of_input_before_terminator
            [of 16 0 zero_buffer "text_file []" "initial_state zero_buffer" "text_file []"] e
    by (simp add: format_eof_1 initial_state_def)
  moreover have "load_ihex_buffer (text_file '':020002000102F9'') zero_buffer 16
     = Some \<lparr>returned = Some ''Unexpected end-of-file (line 2)'',
             buffer_out = copy_data \<lparr>rsize = 2, addr = 2, rtype = 0, data = [1, 2], checksum = 249\<rparr> 0
                            zero_buffer,
             buffer_sz_out = 16\<rparr>"
    using end_of_input_before_terminator [OF _ iterations_two_bytes r e]
    by (simp add: format_eof_2)
  ultimately show ?thesis
    using e iterations_two_bytes records_read_two_bytes by simp
qed



text \<open>
  C10. With a capacity other than 0 the loader returns. When it returns an error,
  \<^verbatim>\<open>*buffer_sz\<close> still holds the capacity it was called with. When it returns
  success, \<^verbatim>\<open>*buffer_sz\<close> holds the mark of the state in which the loop met
  end-of-file with the terminating record read, which is the largest
  \<open>address + size\<close> of the data records of the file.
\<close>

theorem buffer_sz_overwritten_on_success_only:
  "(0 < buffer_sz \<longrightarrow> (\<exists>res. load_ihex_buffer f buf buffer_sz = Some res)) \<and>
   (load_ihex_buffer f buf buffer_sz = Some res \<longrightarrow>
      (returned res \<noteq> None \<longrightarrow> buffer_sz_out res = buffer_sz) \<and>
      (returned res = None \<longrightarrow>
         (\<exists>k s f'. iterations k buffer_sz (initial_state buf) f = Inr (s, f') \<and>
                   fst (fgets IHEX_LINE_MAX_SZ f') = Eof \<and> last_record_read s \<and>
                   buffer_sz_out res = highest_addr s \<and>
                   highest_addr s = highest_end (records_read k f))))"
proof (intro conjI impI)
  assume "0 < buffer_sz"
  then show "\<exists>res. load_ihex_buffer f buf buffer_sz = Some res"
    by (cases "load_loop buffer_sz (initial_state buf) f")
       (auto simp: load_ihex_buffer_def split: option.splits)
next
  assume "load_ihex_buffer f buf buffer_sz = Some res" and "returned res \<noteq> None"
  then show "buffer_sz_out res = buffer_sz"
    by (cases "load_loop buffer_sz (initial_state buf) f")
       (auto simp: load_ihex_buffer_def split: option.splits if_splits)
next
  assume a: "load_ihex_buffer f buf buffer_sz = Some res" and n: "returned res = None"
  obtain e s' where l: "load_loop buffer_sz (initial_state buf) f = (e, s')"
    by (cases "load_loop buffer_sz (initial_state buf) f")
  with a n have e: "e = None" and sz: "buffer_sz_out res = highest_addr s'"
    by (auto simp: load_ihex_buffer_def split: option.splits if_splits)
  from load_loop_decompose [OF l] e obtain k s1 f1 where
    it: "iterations k buffer_sz (initial_state buf) f = Inr (s1, f1)"
    and st: "load_step buffer_sz s1 f1 = Inl (None, s')"
    by blast
  have "highest_addr s' = highest_addr s1"
    using load_step_Inl_state [OF st] by simp
  moreover have "highest_addr s1 = highest_end (records_read k f)"
    using iterations_highest [OF it] by (simp add: initial_state_def)
  ultimately show "\<exists>k s f'. iterations k buffer_sz (initial_state buf) f = Inr (s, f') \<and>
                   fst (fgets IHEX_LINE_MAX_SZ f') = Eof \<and> last_record_read s \<and>
                   buffer_sz_out res = highest_addr s \<and>
                   highest_addr s = highest_end (records_read k f)"
    using it load_step_Inl_None [OF st] sz
    by (intro exI [of _ k] exI [of _ s1] exI [of _ f1]) simp
qed

theorem buffer_sz_overwritten_on_success_only_witness:
  "(0::nat) < 16384 \<and>
   load_ihex_buffer (text_file []) zero_buffer 16384
     = Some \<lparr>returned = Some ''Unexpected end-of-file (line 1)'', buffer_out = zero_buffer,
             buffer_sz_out = 16384\<rparr> \<and>
   returned \<lparr>returned = Some ''Unexpected end-of-file (line 1)'', buffer_out = zero_buffer,
             buffer_sz_out = 16384\<rparr> \<noteq> None \<and>
   load_ihex_buffer (text_file ('':00000001FF'' @ [CHR 0x0A])) zero_buffer 16384
     = Some \<lparr>returned = None, buffer_out = zero_buffer, buffer_sz_out = 0\<rparr> \<and>
   returned \<lparr>returned = None, buffer_out = zero_buffer, buffer_sz_out = 0\<rparr> = None \<and>
   (\<exists>k s f'. iterations k 16384 (initial_state zero_buffer) (text_file ('':00000001FF'' @ [CHR 0x0A]))
                = Inr (s, f') \<and>
             fst (fgets IHEX_LINE_MAX_SZ f') = Eof \<and> last_record_read s \<and> 0 = highest_addr s \<and>
             highest_addr s = highest_end (records_read k (text_file ('':00000001FF'' @ [CHR 0x0A]))))"
  using buffer_sz_overwritten_on_success_only
          [of 16384 "text_file []" zero_buffer
              "\<lparr>returned = Some ''Unexpected end-of-file (line 1)'', buffer_out = zero_buffer,
                buffer_sz_out = 16384\<rparr>"]
        buffer_sz_overwritten_on_success_only
          [of 16384 "text_file ('':00000001FF'' @ [CHR 0x0A])" zero_buffer
              "\<lparr>returned = None, buffer_out = zero_buffer, buffer_sz_out = 0\<rparr>"]
        load_empty load_bare_terminator
  by simp

text \<open>
  C3. The reader is specified to produce a record exactly for the lines of the fixed
  shape (\<open>well_formed_line\<close>; that it produces the record of every such line is
  \<open>read_record_from_line_well_formed\<close>) and to reject any character of a field that
  is not a hexadecimal digit. On the line \<^verbatim>\<open>:010000001gFE\<close> the data field is
  \<^verbatim>\<open>1g\<close>: the conversion \<^verbatim>\<open>%2x\<close> stops at the \<^verbatim>\<open>g\<close>, stores 1 and reports one
  item, so the reader returns a record, with data byte 1, and the record passes the
  checksum test.
\<close>

theorem reader_accepts_non_hex_digit:
  "\<not> isxdigit (CHR ''g'') \<and> '':010000001gFE'' ! 10 = CHR ''g'' \<and>
   read_record_from_line '':010000001gFE''
     = Inr (\<lparr>rsize = 1, addr = 0, rtype = 0, data = [1], checksum = 254\<rparr>, 2) \<and>
   validate_record \<lparr>rsize = 1, addr = 0, rtype = 0, data = [1], checksum = 254\<rparr>"
  by code_simp

text \<open>
  C9. A failure is specified to carry the number of the line it was detected on. The
  messages of the reader are returned as they are: the line \<^verbatim>\<open>x00000001FF\<close> as
  line 1 gives \<^verbatim>\<open>Invalid start code\<close>, with no line number, where a checksum failure
  on line 1 gives \<^verbatim>\<open>Invalid record (line 1)\<close>.
\<close>

theorem reader_error_without_line_number:
  "load_ihex_buffer (text_file (''x00000001FF'' @ [CHR 0x0A])) zero_buffer 16384
     = Some \<lparr>returned = Some ''Invalid start code'', buffer_out = zero_buffer,
             buffer_sz_out = 16384\<rparr> \<and>
   load_ihex_buffer (text_file ('':01000000FF01'' @ [CHR 0x0A])) zero_buffer 16384
     = Some \<lparr>returned = Some ''Invalid record (line 1)'', buffer_out = zero_buffer,
             buffer_sz_out = 16384\<rparr>"
proof -
  have "load_step 16384 (initial_state zero_buffer) (text_file (''x00000001FF'' @ [CHR 0x0A]))
        = Inl (Some ''Invalid start code'', (initial_state zero_buffer)\<lparr>line_number := 1\<rparr>)"
    using load_step_reader_error [OF fgets_bad_start _ reader_bad_start,
                                  of "initial_state zero_buffer" 16384]
    by (simp add: initial_state_def)
  then have a: "load_ihex_buffer (text_file (''x00000001FF'' @ [CHR 0x0A])) zero_buffer 16384
     = Some \<lparr>returned = Some ''Invalid start code'', buffer_out = zero_buffer,
             buffer_sz_out = 16384\<rparr>"
    by (simp add: load_ihex_buffer_def load_loop_Inl initial_state_def)
  have "load_step 16384 (initial_state zero_buffer) (text_file ('':01000000FF01'' @ [CHR 0x0A]))
        = Inl (Some ''Invalid record (line 1)'', (initial_state zero_buffer)\<lparr>line_number := 1\<rparr>)"
    using load_step_Line [OF fgets_bad_checksum_line _ reader_bad_checksum_line,
                          of "initial_state zero_buffer" 16384]
          not_validate_bad_checksum format_error_line_1
    by (simp add: initial_state_def)
  then have "load_ihex_buffer (text_file ('':01000000FF01'' @ [CHR 0x0A])) zero_buffer 16384
     = Some \<lparr>returned = Some ''Invalid record (line 1)'', buffer_out = zero_buffer,
             buffer_sz_out = 16384\<rparr>"
    by (simp add: load_ihex_buffer_def load_loop_Inl initial_state_def)
  with a show ?thesis by simp
qed

text \<open>
  C8. A well-formed input is specified to load. The data record of 255 bytes
  \<^verbatim>\<open>:FF000000\<close>, 510 digits \<^verbatim>\<open>0\<close>, \<^verbatim>\<open>01\<close> is a line of 521 characters that
  the reader accepts and that passes the checksum test, and \<open>0 + 255\<close> is below the
  capacity 16384. Followed by the terminating record it does not load:
  \<^verbatim>\<open>fgets\<close> reads at most \<^verbatim>\<open>IHEX_LINE_MAX_SZ - 1 = 520\<close> characters, the reader
  gets the line without its last character and returns \<^verbatim>\<open>Invalid line length\<close>.
\<close>

theorem full_size_record_rejected:
  "(\<exists>cs. read_record_from_line ('':FF000000'' @ replicate 510 (CHR ''0'') @ ''01'')
          = Inr (\<lparr>rsize = 255, addr = 0, rtype = 0, data = replicate 255 0, checksum = 1\<rparr>, cs)) \<and>
   validate_record \<lparr>rsize = 255, addr = 0, rtype = 0, data = replicate 255 0, checksum = 1\<rparr> \<and>
   read_record_from_line ('':00000001FF'' @ [CHR 0x0A])
     = Inr (\<lparr>rsize = 0, addr = 0, rtype = 1, data = [], checksum = 255\<rparr>, 1) \<and>
   validate_record \<lparr>rsize = 0, addr = 0, rtype = 1, data = [], checksum = 255\<rparr> \<and>
   load_ihex_buffer
     (text_file ('':FF000000'' @ replicate 510 (CHR ''0'') @ ''01'' @ [CHR 0x0A]
                 @ '':00000001FF'' @ [CHR 0x0A]))
     zero_buffer 16384
   = Some \<lparr>returned = Some ''Invalid line length'', buffer_out = zero_buffer,
           buffer_sz_out = 16384\<rparr>"
  using reader_full_record validate_full_record reader_terminator validate_terminator
        load_full_record
  by blast

end
